theory Spec2Isabelle
  imports Main "HOL-Library.Word"
begin

unbundle bit_operations_syntax

section \<open>Machine types, constants and data model\<close>

text \<open>
  The embedded file is \<^verbatim>\<open>embedded-signal-peaks.c\<close>. Samples are \<^verbatim>\<open>int16_t\<close> and
  Q16.16 values are \<^verbatim>\<open>int32_t\<close>: both are machine words, compared with the signed
  orders \<open>\<le>s\<close> and \<open><s\<close>, and their arithmetic wraps around where C leaves the
  overflow undefined. Array indices, lengths and counts are \<^verbatim>\<open>int32_t\<close> too, but the entry
  points admit lengths in \<open>(0, 512]\<close> only and every index stays in \<open>[-1, length]\<close>, so they
  are modelled as \<open>int\<close>, where the same arithmetic is exact.

  An array argument is a list together with the separate \<open>length\<close> argument of the C
  function (written \<open>len\<close>); the code never reads at or beyond \<open>len\<close>. A pointer that may
  be \<^verbatim>\<open>NULL\<close> is an \<open>option\<close>, with \<open>None\<close> for \<^verbatim>\<open>NULL\<close>. Distinct array arguments are
  distinct lists: buffers that overlap are outside the model.
\<close>

type_synonym int16 = "16 word"
type_synonym int32 = "32 word"

definition MAX_SIGNAL_LENGTH :: int where
  "MAX_SIGNAL_LENGTH = 512"

definition MAX_PEAKS :: int where
  "MAX_PEAKS = 32"

definition INT32_MIN :: int32 where
  "INT32_MIN = 0x80000000"

text \<open>
  The three default thresholds are \<^verbatim>\<open>(int32_t)(1.0f * Q16_ONE)\<close>, \<^verbatim>\<open>(int32_t)(0.1f * Q16_ONE)\<close>
  and \<^verbatim>\<open>(int32_t)(10.0f * Q16_ONE)\<close>: 65536, 6553 (the product 6553.6 truncated) and 655360.
\<close>

definition PROMINENCE_THRESHOLD_Q16 :: int32 where
  "PROMINENCE_THRESHOLD_Q16 = 65536"

definition GRADIENT_THRESHOLD_Q16 :: int32 where
  "GRADIENT_THRESHOLD_Q16 = 6553"

definition NOISE_FLOOR_Q16 :: int32 where
  "NOISE_FLOOR_Q16 = 655360"

datatype PeakResultFP =
    PEAK_FP_OK
  | PEAK_FP_NO_PEAK_FOUND
  | PEAK_FP_INVALID_INPUT
  | PEAK_FP_BUFFER_TOO_SMALL

record PeakConfigFP =
  prominence_threshold_q16 :: int32
  gradient_threshold_q16 :: int32
  noise_floor_q16 :: int32

definition default_config_fp :: PeakConfigFP where
  "default_config_fp =
     \<lparr> prominence_threshold_q16 = PROMINENCE_THRESHOLD_Q16,
       gradient_threshold_q16 = GRADIENT_THRESHOLD_Q16,
       noise_floor_q16 = NOISE_FLOOR_Q16 \<rparr>"

text \<open>
  The file-level buffers \<^verbatim>\<open>s_signal_q16[MAX_SIGNAL_LENGTH]\<close> and
  \<^verbatim>\<open>s_peak_candidates[MAX_PEAKS]\<close> keep their contents between calls; they are passed in
  and returned explicitly. \<open>statics_ok\<close> states their declared sizes.
\<close>

record statics =
  s_signal_q16 :: "int32 list"
  s_peak_candidates :: "int list"

definition statics_ok :: "statics \<Rightarrow> bool" where
  "statics_ok st \<longleftrightarrow>
     int (length (s_signal_q16 st)) = MAX_SIGNAL_LENGTH \<and>
     int (length (s_peak_candidates st)) = MAX_PEAKS"

text \<open>
  An output location (\<^verbatim>\<open>*peak_index\<close>, \<^verbatim>\<open>*best_prominence\<close>) holds a value and counts the
  stores made to it, so that "left unmodified" and "written once" can both be stated.
\<close>

datatype 'a cell = Cell (content: 'a) (stores: nat)

definition store :: "'a \<Rightarrow> 'a cell \<Rightarrow> 'a cell" where
  "store v c = Cell v (Suc (stores c))"

section \<open>Fixed-point conversion\<close>

text \<open>\<^verbatim>\<open>to_q16\<close>: \<^verbatim>\<open>((int32_t)value) << Q16_SHIFT\<close>, a sign extension followed by a shift.\<close>

definition to_q16 :: "int16 \<Rightarrow> int32" where
  "to_q16 v = push_bit 16 (scast v :: int32)"

text \<open>
  \<^verbatim>\<open>from_q16\<close>: \<^verbatim>\<open>rounded = (value_q16 + Q16_HALF) >> Q16_SHIFT\<close>, then the two clamps and
  the cast. \<^verbatim>\<open>Q16_HALF\<close> is \<^verbatim>\<open>1L << 15\<close>, so the sum is formed in the type \<^verbatim>\<open>long\<close>, whose
  width the C standard leaves to the target (32 bits on the microcontrollers the file is
  written for and on LLP64 hosts, 64 bits on LP64 hosts). The width is the parameter
  \<open>long_bits\<close>; the sum wraps to that width (\<open>signed_take_bit\<close>), the arithmetic right shift
  is the floor division by \<open>2^16\<close>.
\<close>

definition from_q16 :: "nat \<Rightarrow> int32 \<Rightarrow> int16" where
  "from_q16 long_bits value_q16 =
     (let rounded = signed_take_bit (long_bits - 1) (sint value_q16 + 2 ^ 15) div 2 ^ 16;
          rounded = (if rounded > 32767 then 32767
                     else if rounded < - 32768 then - 32768
                     else rounded)
      in word_of_int rounded)"

section \<open>Gradient\<close>

text \<open>
  \<^verbatim>\<open>compute_gradient_at\<close>: forward difference at index 0, backward difference at
  \<open>len - 1\<close>, otherwise the central difference shifted right by one bit, arithmetically.
\<close>

definition compute_gradient_at :: "int32 list \<Rightarrow> int \<Rightarrow> int \<Rightarrow> int32" where
  "compute_gradient_at signal_q16 len index =
     (if index = 0 then signal_q16 ! 1 - signal_q16 ! 0
      else if index = len - 1 then signal_q16 ! nat (len - 1) - signal_q16 ! nat (len - 2)
      else signed_drop_bit 1 (signal_q16 ! nat (index + 1) - signal_q16 ! nat (index - 1)))"

section \<open>Topological prominence\<close>

text \<open>
  \<^verbatim>\<open>calculate_topological_prominence\<close>. Its two loops are \<open>walk_left\<close>
  (\<^verbatim>\<open>for (i = peak_idx - 1; i >= 0; i--)\<close>) and \<open>walk_right\<close>
  (\<^verbatim>\<open>for (i = peak_idx + 1; i < length; i++)\<close>); each takes the loop variable and the
  running minimum and returns the minimum at loop exit, the \<^verbatim>\<open>break\<close> being the branch that
  returns at once. \<open>reference_level\<close> is the value of \<^verbatim>\<open>ref_level\<close>, and the function returns
  \<^verbatim>\<open>peak_value - ref_level\<close>.
\<close>

function walk_left :: "int32 list \<Rightarrow> int32 \<Rightarrow> int \<Rightarrow> int32 \<Rightarrow> int32" where
  "walk_left signal_q16 peak_value i left_min =
     (if 0 \<le> i then
        (if peak_value \<le>s signal_q16 ! nat i then left_min
         else walk_left signal_q16 peak_value (i - 1)
                (if signal_q16 ! nat i <s left_min then signal_q16 ! nat i else left_min))
      else left_min)"
  by pat_completeness auto
termination
  by (relation "measure (\<lambda>(signal_q16, peak_value, i, left_min). nat (i + 1))") auto

function walk_right :: "int32 list \<Rightarrow> int \<Rightarrow> int32 \<Rightarrow> int \<Rightarrow> int32 \<Rightarrow> int32" where
  "walk_right signal_q16 len peak_value i right_min =
     (if i < len then
        (if peak_value \<le>s signal_q16 ! nat i then right_min
         else walk_right signal_q16 len peak_value (i + 1)
                (if signal_q16 ! nat i <s right_min then signal_q16 ! nat i else right_min))
      else right_min)"
  by pat_completeness auto
termination
  by (relation "measure (\<lambda>(signal_q16, len, peak_value, i, right_min). nat (len - i))") auto

definition reference_level :: "int32 list \<Rightarrow> int \<Rightarrow> int \<Rightarrow> int32" where
  "reference_level signal_q16 len peak_idx =
     (let peak_value = signal_q16 ! nat peak_idx;
          left_min = walk_left signal_q16 peak_value (peak_idx - 1) peak_value;
          right_min = walk_right signal_q16 len peak_value (peak_idx + 1) peak_value
      in if right_min <s left_min then left_min else right_min)"

definition calculate_topological_prominence :: "int32 list \<Rightarrow> int \<Rightarrow> int \<Rightarrow> int32" where
  "calculate_topological_prominence signal_q16 len peak_idx =
     signal_q16 ! nat peak_idx - reference_level signal_q16 len peak_idx"

section \<open>Candidate detection\<close>

text \<open>
  \<^verbatim>\<open>find_peak_candidates\<close>. \<open>peak_conditions\<close> is the test made in the loop body at index
  \<open>i\<close>, with the two gradients the loop holds at that point. \<open>scan_candidates\<close> is the loop
  \<^verbatim>\<open>for (i = 1; i < (length - 1); i++)\<close> over the state \<^verbatim>\<open>grad_prev\<close>, \<^verbatim>\<open>peak_indices\<close>,
  \<^verbatim>\<open>count\<close>; it stops early at the first accepted index that finds the buffer full. The
  function returns its code, the candidate buffer and the value left in \<^verbatim>\<open>*num_peaks\<close>.
\<close>

definition peak_conditions ::
  "int32 list \<Rightarrow> PeakConfigFP \<Rightarrow> int \<Rightarrow> int32 \<Rightarrow> int32 \<Rightarrow> bool" where
  "peak_conditions signal_q16 config i grad_prev grad_curr =
     (let is_zero_crossing = (0 <s grad_prev \<and> grad_curr \<le>s 0);
          is_local_max = (signal_q16 ! nat (i - 1) <s signal_q16 ! nat i \<and>
                          signal_q16 ! nat (i + 1) <s signal_q16 ! nat i);
          above_noise = (noise_floor_q16 config <s signal_q16 ! nat i);
          grad_mag = (if 0 <s grad_prev then grad_prev else - grad_prev);
          strong_gradient = (gradient_threshold_q16 config \<le>s grad_mag)
      in (is_zero_crossing \<or> is_local_max) \<and> above_noise \<and> strong_gradient)"

function scan_candidates ::
  "int32 list \<Rightarrow> int \<Rightarrow> PeakConfigFP \<Rightarrow> int \<Rightarrow> int \<Rightarrow> int32 \<Rightarrow> int list \<Rightarrow> int
     \<Rightarrow> int list \<times> int" where
  "scan_candidates signal_q16 len config max_peaks i grad_prev peak_indices count =
     (if i < len - 1 then
        (let grad_curr = compute_gradient_at signal_q16 len i in
         if peak_conditions signal_q16 config i grad_prev grad_curr then
           (if count < max_peaks then
              scan_candidates signal_q16 len config max_peaks (i + 1) grad_curr
                (peak_indices[nat count := i]) (count + 1)
            else (peak_indices, count))
         else scan_candidates signal_q16 len config max_peaks (i + 1) grad_curr
                peak_indices count)
      else (peak_indices, count))"
  by pat_completeness auto
termination
  by (relation "measure (\<lambda>(signal_q16, len, config, max_peaks, i, grad_prev, peak_indices, count).
                  nat (len - i))") auto

definition find_peak_candidates ::
  "int32 list \<Rightarrow> int \<Rightarrow> PeakConfigFP \<Rightarrow> int list \<Rightarrow> int
     \<Rightarrow> PeakResultFP \<times> int list \<times> int" where
  "find_peak_candidates signal_q16 len config peak_indices max_peaks =
     (if len < 3 then (PEAK_FP_BUFFER_TOO_SMALL, peak_indices, 0)
      else
        (let grad_prev = compute_gradient_at signal_q16 len 0;
             (peak_indices', count) =
               scan_candidates signal_q16 len config max_peaks 1 grad_prev peak_indices 0
         in (PEAK_FP_OK, peak_indices', count)))"

section \<open>Selection\<close>

text \<open>
  \<^verbatim>\<open>select_prominent_peak\<close>. \<open>select_loop\<close> is the loop over the first \<^verbatim>\<open>num_peaks\<close>
  candidates with the state \<^verbatim>\<open>max_prominence\<close>, \<^verbatim>\<open>best_idx\<close>, started at \<^verbatim>\<open>INT32_MIN\<close> and
  \<open>-1\<close>. The function returns its code and the two output locations, stored to on success
  only (\<^verbatim>\<open>best_prominence\<close> may be \<^verbatim>\<open>NULL\<close>).
\<close>

function select_loop ::
  "int32 list \<Rightarrow> int \<Rightarrow> int list \<Rightarrow> int \<Rightarrow> PeakConfigFP \<Rightarrow> int \<Rightarrow> int32 \<Rightarrow> int
     \<Rightarrow> int32 \<times> int" where
  "select_loop signal_q16 len peak_indices num_peaks config i max_prominence best_idx =
     (if i < num_peaks then
        (let idx = peak_indices ! nat i;
             prominence = calculate_topological_prominence signal_q16 len idx
         in if prominence_threshold_q16 config \<le>s prominence \<and> max_prominence <s prominence
            then select_loop signal_q16 len peak_indices num_peaks config (i + 1) prominence idx
            else select_loop signal_q16 len peak_indices num_peaks config (i + 1)
                   max_prominence best_idx)
      else (max_prominence, best_idx))"
  by pat_completeness auto
termination
  by (relation "measure (\<lambda>(signal_q16, len, peak_indices, num_peaks, config, i,
                            max_prominence, best_idx). nat (num_peaks - i))") auto

definition select_prominent_peak ::
  "int32 list \<Rightarrow> int \<Rightarrow> int list \<Rightarrow> int \<Rightarrow> PeakConfigFP \<Rightarrow> int cell \<Rightarrow> int32 cell option
     \<Rightarrow> PeakResultFP \<times> int cell \<times> int32 cell option" where
  "select_prominent_peak signal_q16 len peak_indices num_peaks config
       best_peak_idx best_prominence =
     (let (max_prominence, best_idx) =
            select_loop signal_q16 len peak_indices num_peaks config 0 INT32_MIN (- 1)
      in if 0 \<le> best_idx
         then (PEAK_FP_OK, store best_idx best_peak_idx,
               map_option (store max_prominence) best_prominence)
         else (PEAK_FP_NO_PEAK_FOUND, best_peak_idx, best_prominence))"

section \<open>Entry points\<close>

text \<open>
  The entry points. \<open>convert_signal\<close> is the loop
  \<^verbatim>\<open>for (i = 0; i < length; i++) buffer[i] = to_q16(signal[i])\<close>.
  \<open>find_prominent_peak_fp\<close> works in the static buffers and returns its code, the output
  location and the static buffers as it leaves them; \<open>find_prominent_peak_fp_buffered\<close>
  works in the caller's two buffers and returns them as well.
\<close>

function convert_signal :: "int16 list \<Rightarrow> int \<Rightarrow> int \<Rightarrow> int32 list \<Rightarrow> int32 list" where
  "convert_signal signal len i buffer =
     (if i < len
      then convert_signal signal len (i + 1) (buffer[nat i := to_q16 (signal ! nat i)])
      else buffer)"
  by pat_completeness auto
termination
  by (relation "measure (\<lambda>(signal, len, i, buffer). nat (len - i))") auto

definition find_prominent_peak_fp ::
  "statics \<Rightarrow> int16 list option \<Rightarrow> int \<Rightarrow> int cell option \<Rightarrow> PeakConfigFP option
     \<Rightarrow> PeakResultFP \<times> int cell option \<times> statics" where
  "find_prominent_peak_fp st signal len peak_index user_config =
     (case (signal, peak_index) of
        (Some sig, Some out) \<Rightarrow>
          if len \<le> 0 \<or> len > MAX_SIGNAL_LENGTH then (PEAK_FP_INVALID_INPUT, peak_index, st)
          else
            (let config = (case user_config of Some c \<Rightarrow> c | None \<Rightarrow> default_config_fp);
                 st1 = st\<lparr>s_signal_q16 := convert_signal sig len 0 (s_signal_q16 st)\<rparr>;
                 (result, cands, num_candidates) =
                   find_peak_candidates (s_signal_q16 st1) len config
                     (s_peak_candidates st1) MAX_PEAKS;
                 st2 = st1\<lparr>s_peak_candidates := cands\<rparr>
             in if result \<noteq> PEAK_FP_OK then (result, peak_index, st2)
                else if num_candidates = 0 then (PEAK_FP_NO_PEAK_FOUND, peak_index, st2)
                else
                  (let (result, out', _) =
                         select_prominent_peak (s_signal_q16 st2) len (s_peak_candidates st2)
                           num_candidates config out None
                   in (result, Some out', st2)))
      | _ \<Rightarrow> (PEAK_FP_INVALID_INPUT, peak_index, st))"

definition find_prominent_peak_fp_buffered ::
  "int16 list option \<Rightarrow> int \<Rightarrow> int cell option \<Rightarrow> PeakConfigFP option
     \<Rightarrow> int32 list option \<Rightarrow> int list option
     \<Rightarrow> PeakResultFP \<times> int cell option \<times> int32 list option \<times> int list option" where
  "find_prominent_peak_fp_buffered signal len peak_index user_config
       signal_q16_buffer peaks_buffer =
     (case (signal, peak_index, signal_q16_buffer, peaks_buffer) of
        (Some sig, Some out, Some qbuf, Some pbuf) \<Rightarrow>
          if len \<le> 0 \<or> len > MAX_SIGNAL_LENGTH
          then (PEAK_FP_INVALID_INPUT, peak_index, signal_q16_buffer, peaks_buffer)
          else
            (let config = (case user_config of Some c \<Rightarrow> c | None \<Rightarrow> default_config_fp);
                 qbuf1 = convert_signal sig len 0 qbuf;
                 (result, pbuf1, num_candidates) =
                   find_peak_candidates qbuf1 len config pbuf MAX_PEAKS
             in if result \<noteq> PEAK_FP_OK then (result, peak_index, Some qbuf1, Some pbuf1)
                else if num_candidates = 0
                  then (PEAK_FP_NO_PEAK_FOUND, peak_index, Some qbuf1, Some pbuf1)
                else
                  (let (result, out', _) =
                         select_prominent_peak qbuf1 len pbuf1 num_candidates config out None
                   in (result, Some out', Some qbuf1, Some pbuf1)))
      | _ \<Rightarrow> (PEAK_FP_INVALID_INPUT, peak_index, signal_q16_buffer, peaks_buffer))"

declare walk_left.simps [simp del] walk_right.simps [simp del] scan_candidates.simps [simp del]
  select_loop.simps [simp del] convert_signal.simps [simp del]


section \<open>The specification's wording, for comparison with the code\<close>

text \<open>
  These definitions follow the specification, not the source. The running minimum of a walk
  starts at the peak value and takes in the samples met, in walking order, up to the first
  one that is not below the peak. The reference level is the greater of the minima of the
  walk to the left and of the walk to the right, and the prominence is the peak value minus
  the reference level: the height itself, an integer that need not fit in 32 bits.
\<close>

definition running_minimum :: "int32 \<Rightarrow> int32 list \<Rightarrow> int32" where
  "running_minimum peak_value samples =
     fold (\<lambda>v m. if v <s m then v else m)
       (takeWhile (\<lambda>v. v <s peak_value) samples) peak_value"

definition spec_reference_level :: "int32 list \<Rightarrow> int \<Rightarrow> int \<Rightarrow> int32" where
  "spec_reference_level signal_q16 len peak_idx =
     (let samples = take (nat len) signal_q16;
          p = nat peak_idx;
          peak_value = samples ! p;
          left_minimum = running_minimum peak_value (rev (take p samples));
          right_minimum = running_minimum peak_value (drop (Suc p) samples)
      in if left_minimum <s right_minimum then right_minimum else left_minimum)"

definition spec_prominence :: "int32 list \<Rightarrow> int \<Rightarrow> int \<Rightarrow> int" where
  "spec_prominence signal_q16 len peak_idx =
     sint (take (nat len) signal_q16 ! nat peak_idx) -
     sint (spec_reference_level signal_q16 len peak_idx)"

text \<open>
  The gradient as specified: forward difference at index 0, backward difference at the last
  index, otherwise the central difference halved with rounding towards minus infinity; the
  differences are those of the sample values, as integers. An
  index is a candidate when it is a zero crossing of the gradient or a strict local maximum,
  lies above the noise floor, and the absolute value of the previous index's gradient
  reaches the gradient threshold. The candidate list holds the first \<open>MAX_PEAKS\<close> such
  indices of \<open>[1, len - 2]\<close> in ascending order.
\<close>

definition spec_gradient :: "int32 list \<Rightarrow> int \<Rightarrow> int \<Rightarrow> int" where
  "spec_gradient signal_q16 len i =
     (if i = 0 then sint (signal_q16 ! 1) - sint (signal_q16 ! 0)
      else if i = len - 1
        then sint (signal_q16 ! nat (len - 1)) - sint (signal_q16 ! nat (len - 2))
      else (sint (signal_q16 ! nat (i + 1)) - sint (signal_q16 ! nat (i - 1))) div 2)"

definition spec_is_candidate :: "int32 list \<Rightarrow> int \<Rightarrow> PeakConfigFP \<Rightarrow> int \<Rightarrow> bool" where
  "spec_is_candidate signal_q16 len config i =
     (let previous_gradient = spec_gradient signal_q16 len (i - 1);
          current_gradient = spec_gradient signal_q16 len i
      in ((0 < previous_gradient \<and> current_gradient \<le> 0) \<or>
          (signal_q16 ! nat (i - 1) <s signal_q16 ! nat i \<and>
           signal_q16 ! nat (i + 1) <s signal_q16 ! nat i)) \<and>
         noise_floor_q16 config <s signal_q16 ! nat i \<and>
         sint (gradient_threshold_q16 config) \<le> \<bar>previous_gradient\<bar>)"

definition spec_candidates :: "int32 list \<Rightarrow> int \<Rightarrow> PeakConfigFP \<Rightarrow> int list" where
  "spec_candidates signal_q16 len config =
     (let satisfying = filter (spec_is_candidate signal_q16 len config) [1..len - 2]
      in take (min (nat MAX_PEAKS) (length satisfying)) satisfying)"

section \<open>Auxiliary notions used to state loop results\<close>

text \<open>
  \<open>is_candidate\<close> is the loop's test at index \<open>i\<close> with the gradients written out;
  \<open>candidates\<close> is what the scan leaves in the buffer; \<open>select_step\<close> is one iteration of
  the selection loop; \<open>converted\<close> is the first \<open>len\<close> entries of the Q16.16 buffer after
  conversion; \<open>detect\<close> is the composition of the stages on lists without spare capacity,
  which both entry points are shown to compute.
\<close>

definition is_candidate :: "int32 list \<Rightarrow> int \<Rightarrow> PeakConfigFP \<Rightarrow> int \<Rightarrow> bool" where
  "is_candidate signal_q16 len config i =
     peak_conditions signal_q16 config i
       (compute_gradient_at signal_q16 len (i - 1)) (compute_gradient_at signal_q16 len i)"

definition select_step ::
  "int32 list \<Rightarrow> int \<Rightarrow> PeakConfigFP \<Rightarrow> int32 \<times> int \<Rightarrow> int \<Rightarrow> int32 \<times> int" where
  "select_step signal_q16 len config state idx =
     (let prominence = calculate_topological_prominence signal_q16 len idx
      in if prominence_threshold_q16 config \<le>s prominence \<and> fst state <s prominence
         then (prominence, idx) else state)"

definition candidates :: "int32 list \<Rightarrow> int \<Rightarrow> PeakConfigFP \<Rightarrow> int \<Rightarrow> int list" where
  "candidates signal_q16 len config max_peaks =
     take (nat max_peaks) (filter (is_candidate signal_q16 len config) [1..len - 2])"

definition converted :: "int16 list \<Rightarrow> int \<Rightarrow> int32 list" where
  "converted signal len = map (\<lambda>j. to_q16 (signal ! j)) [0..<nat len]"

definition detect :: "int16 list \<Rightarrow> int \<Rightarrow> PeakConfigFP \<Rightarrow> int cell \<Rightarrow> PeakResultFP \<times> int cell" where
  "detect signal len config out =
     (let q = converted signal len;
          cands = candidates q len config MAX_PEAKS
      in if len < 3 then (PEAK_FP_BUFFER_TOO_SMALL, out)
         else if cands = [] then (PEAK_FP_NO_PEAK_FOUND, out)
         else (let (result, out', _) =
                     select_prominent_peak q len cands (int (length cands)) config out None
               in (result, out')))"

section \<open>Properties of the conversion\<close>

lemma sint_to_q16: "sint (to_q16 v) = sint v * 65536"
proof -
  have r: "- (2 ^ 15) \<le> sint v" "sint v < 2 ^ 15"
    using sint_ge [of v] sint_lt [of v] by simp_all
  have "sint (scast v :: int32) = sint v"
    by (rule sint_up_scast) (simp add: is_up)
  then have "sint (to_q16 v) = signed_take_bit 31 (sint v * 65536)"
    by (simp add: to_q16_def push_bit_eq_mult sint_word_ariths)
  also have "\<dots> = sint v * 65536"
    using r by (intro signed_take_bit_int_eq_self) simp_all
  finally show ?thesis .
qed

lemma from_q16_to_q16: "32 \<le> long_bits \<Longrightarrow> from_q16 long_bits (to_q16 x) = x"
proof -
  assume lb: "32 \<le> long_bits"
  have r: "- (2 ^ 15) \<le> sint x" "sint x < 2 ^ 15"
    using sint_ge [of x] sint_lt [of x] by simp_all
  have p: "(2::int) ^ 31 \<le> 2 ^ (long_bits - 1)"
    using lb by (intro power_increasing) simp_all
  have "signed_take_bit (long_bits - 1) (sint x * 65536 + 2 ^ 15) = sint x * 65536 + 2 ^ 15"
    using r p by (intro signed_take_bit_int_eq_self) simp_all
  moreover have "(sint x * 65536 + 32768) div 65536 = sint x"
    by simp
  ultimately show ?thesis
    using r by (simp add: from_q16_def sint_to_q16 Let_def)
qed

lemma sint_from_q16_exact:
  assumes "sint q + 2 ^ 15 < 2 ^ (long_bits - 1)" "32 \<le> long_bits"
  shows "sint (from_q16 long_bits q) =
           (let r = (sint q + 2 ^ 15) div 2 ^ 16
            in if r > 32767 then 32767 else if r < - 32768 then - 32768 else r)"
proof -
  define r where "r = (sint q + 2 ^ 15) div 2 ^ 16"
  define c where "c = (if r > 32767 then 32767 else if r < - 32768 then - 32768 else r)"
  have p: "(2::int) ^ 31 \<le> 2 ^ (long_bits - 1)"
    using assms(2) by (intro power_increasing) simp_all
  have "- (2 ^ 31) \<le> sint q"
    using sint_ge [of q] by simp
  then have "signed_take_bit (long_bits - 1) (sint q + 2 ^ 15) = sint q + 2 ^ 15"
    using assms(1) p by (intro signed_take_bit_int_eq_self) simp_all
  then have "from_q16 long_bits q = word_of_int c"
    by (simp add: from_q16_def Let_def r_def c_def)
  moreover have "sint (word_of_int c :: int16) = c"
    by (simp add: c_def signed_take_bit_int_eq_self sint_sbintrunc')
  ultimately show ?thesis
    by (simp add: r_def c_def Let_def)
qed

lemma from_q16_saturates_long64:
  "sint (from_q16 64 q) =
     (let r = (sint q + 2 ^ 15) div 2 ^ 16
      in if r > 32767 then 32767 else if r < - 32768 then - 32768 else r)"
proof -
  have "sint q < 2 ^ 31"
    using sint_lt [of q] by simp
  then show ?thesis
    by (intro sint_from_q16_exact) simp_all
qed

section \<open>Prominence: the walks as folds over the visited samples\<close>

lemma walk_left_fold:
  "i < int (length signal_q16) \<Longrightarrow>
   walk_left signal_q16 peak_value i left_min =
     fold (\<lambda>v m. if v <s m then v else m)
       (takeWhile (\<lambda>v. v <s peak_value) (rev (take (nat (i + 1)) signal_q16))) left_min"
proof (induction signal_q16 peak_value i left_min rule: walk_left.induct)
  case (1 signal_q16 peak_value i left_min)
  show ?case
  proof (cases "0 \<le> i")
    case False
    then show ?thesis
      by (simp add: walk_left.simps [of signal_q16 peak_value i])
  next
    case True
    with "1.prems" have lt: "nat i < length signal_q16"
      by simp
    from True have n: "nat (i + 1) = Suc (nat i)" "nat (i - 1 + 1) = nat i"
      by simp_all
    have split: "rev (take (Suc (nat i)) signal_q16) =
                   signal_q16 ! nat i # rev (take (nat i) signal_q16)"
      using lt by (simp add: take_Suc_conv_app_nth)
    show ?thesis
    proof (cases "peak_value \<le>s signal_q16 ! nat i")
      case stop: True
      then have "\<not> signal_q16 ! nat i <s peak_value"
        by (simp add: signed.not_less)
      with True stop show ?thesis
        by (simp add: walk_left.simps [of signal_q16 peak_value i] n split)
    next
      case go: False
      then have "signal_q16 ! nat i <s peak_value"
        by (simp add: signed.not_le)
      moreover from "1.prems" have "i - 1 < int (length signal_q16)"
        by simp
      ultimately show ?thesis
        using True go "1.IH" [OF True go]
        by (simp add: walk_left.simps [of signal_q16 peak_value i] n split)
    qed
  qed
qed

lemma walk_right_fold:
  "0 \<le> i \<Longrightarrow> len \<le> int (length signal_q16) \<Longrightarrow>
   walk_right signal_q16 len peak_value i right_min =
     fold (\<lambda>v m. if v <s m then v else m)
       (takeWhile (\<lambda>v. v <s peak_value) (drop (nat i) (take (nat len) signal_q16))) right_min"
proof (induction signal_q16 len peak_value i right_min rule: walk_right.induct)
  case (1 signal_q16 len peak_value i right_min)
  show ?case
  proof (cases "i < len")
    case False
    then show ?thesis
      by (simp add: walk_right.simps [of signal_q16 len peak_value i])
  next
    case True
    with "1.prems" have lt: "nat i < length (take (nat len) signal_q16)"
      by simp
    from "1.prems" have n: "nat (i + 1) = Suc (nat i)"
      by simp
    have split: "drop (nat i) (take (nat len) signal_q16) =
                   signal_q16 ! nat i # drop (Suc (nat i)) (take (nat len) signal_q16)"
      using lt Cons_nth_drop_Suc [OF lt] by simp
    show ?thesis
    proof (cases "peak_value \<le>s signal_q16 ! nat i")
      case stop: True
      then have "\<not> signal_q16 ! nat i <s peak_value"
        by (simp add: signed.not_less)
      with True stop show ?thesis
        by (simp add: walk_right.simps [of signal_q16 len peak_value i] split)
    next
      case go: False
      then have "signal_q16 ! nat i <s peak_value"
        by (simp add: signed.not_le)
      then show ?thesis
        using True go "1.IH" [OF True go] "1.prems"
        by (simp add: walk_right.simps [of signal_q16 len peak_value i] n split)
    qed
  qed
qed

lemma greater_of_two:
  "(if r <s l then l else r) = (if l <s r then r else l)"
  using signed.less_asym [of l r] signed.neqE [of l r] by auto

lemma reference_level_refines_spec:
  assumes "0 \<le> peak_idx" "peak_idx < len" "len \<le> int (length signal_q16)"
  shows "reference_level signal_q16 len peak_idx =
           spec_reference_level signal_q16 len peak_idx"
proof -
  have p: "nat peak_idx < nat len" "nat (peak_idx - 1 + 1) = nat peak_idx"
      "nat (peak_idx + 1) = Suc (nat peak_idx)"
    using assms by simp_all
  have l: "walk_left signal_q16 (signal_q16 ! nat peak_idx) (peak_idx - 1)
             (signal_q16 ! nat peak_idx) =
           running_minimum (signal_q16 ! nat peak_idx) (rev (take (nat peak_idx) signal_q16))"
    using assms by (simp add: walk_left_fold running_minimum_def p)
  have r: "walk_right signal_q16 len (signal_q16 ! nat peak_idx) (peak_idx + 1)
             (signal_q16 ! nat peak_idx) =
           running_minimum (signal_q16 ! nat peak_idx)
             (drop (Suc (nat peak_idx)) (take (nat len) signal_q16))"
    using assms by (simp add: walk_right_fold running_minimum_def p)
  have t: "take (nat peak_idx) (take (nat len) signal_q16) = take (nat peak_idx) signal_q16"
  proof -
    have "nat peak_idx \<le> nat len"
      using assms by linarith
    then show ?thesis
      by (simp add: min_absorb1)
  qed
  have "reference_level signal_q16 len peak_idx =
          (let peak_value = signal_q16 ! nat peak_idx;
               left_minimum = running_minimum peak_value (rev (take (nat peak_idx) signal_q16));
               right_minimum = running_minimum peak_value
                 (drop (Suc (nat peak_idx)) (take (nat len) signal_q16))
           in if left_minimum <s right_minimum then right_minimum else left_minimum)"
    unfolding reference_level_def Let_def l r by (rule greater_of_two)
  then show ?thesis
    using p(1)
    by (simp only: spec_reference_level_def Let_def t nth_take)
qed

lemma prominence_refines_spec:
  assumes "0 \<le> peak_idx" "peak_idx < len" "len \<le> int (length signal_q16)"
  shows "calculate_topological_prominence signal_q16 len peak_idx =
           signal_q16 ! nat peak_idx - spec_reference_level signal_q16 len peak_idx"
  unfolding calculate_topological_prominence_def reference_level_refines_spec [OF assms]
  by (rule refl)


section \<open>Candidate detection: the scan as a filter\<close>

lemma scan_candidates_result:
  assumes "0 \<le> count" "nat max_peaks \<le> length peak_indices"
    "grad_prev = compute_gradient_at signal_q16 len (i - 1)"
    "scan_candidates signal_q16 len config max_peaks i grad_prev peak_indices count = (buf, n)"
  shows "n = count + int (length (take (nat (max_peaks - count))
                 (filter (is_candidate signal_q16 len config) [i..len - 2]))) \<and>
         length buf = length peak_indices \<and>
         take (nat n) buf = take (nat count) peak_indices @
            take (nat (max_peaks - count)) (filter (is_candidate signal_q16 len config) [i..len - 2]) \<and>
         drop (nat n) buf = drop (nat n) peak_indices"
  using assms
proof (induction signal_q16 len config max_peaks i grad_prev peak_indices count
    rule: scan_candidates.induct)
  case (1 signal_q16 len config max_peaks i grad_prev peak_indices count)
  note eq = scan_candidates.simps [of signal_q16 len config max_peaks i grad_prev peak_indices count]
  show ?case
  proof (cases "i < len - 1")
    case False
    then have "[i..len - 2] = []"
      by simp
    with False "1.prems"(1,2,4) show ?thesis
      by (simp add: eq)
  next
    case True
    then have up: "[i..len - 2] = i # [i + 1..len - 2]"
      by (simp add: upto_rec1)
    define g where "g = compute_gradient_at signal_q16 len i"
    have cand: "is_candidate signal_q16 len config i =
                  peak_conditions signal_q16 config i grad_prev g"
      by (simp add: is_candidate_def g_def "1.prems"(3))
    show ?thesis
    proof (cases "peak_conditions signal_q16 config i grad_prev g")
      case no: False
      have run: "scan_candidates signal_q16 len config max_peaks (i + 1) g peak_indices count = (buf, n)"
        using "1.prems"(4) True no by (simp add: eq g_def)
      have ih: "n = count + int (length (take (nat (max_peaks - count))
                    (filter (is_candidate signal_q16 len config) [i + 1..len - 2]))) \<and>
            length buf = length peak_indices \<and>
            take (nat n) buf = take (nat count) peak_indices @
               take (nat (max_peaks - count))
                 (filter (is_candidate signal_q16 len config) [i + 1..len - 2]) \<and>
            drop (nat n) buf = drop (nat n) peak_indices"
        by (rule "1.IH"(2) [OF True g_def no]) (use "1.prems"(1,2) run in \<open>simp_all add: g_def\<close>)
      have f: "filter (is_candidate signal_q16 len config) [i..len - 2] =
                 filter (is_candidate signal_q16 len config) [i + 1..len - 2]"
        using no cand by (simp add: up)
      show ?thesis
        unfolding f by (rule ih)
    next
      case yes: True
      show ?thesis
      proof (cases "count < max_peaks")
        case full: False
        then have "nat (max_peaks - count) = 0"
          by simp
        moreover have "(buf, n) = (peak_indices, count)"
          using "1.prems"(4) True yes full by (simp add: eq g_def)
        ultimately show ?thesis
          by simp
      next
        case room: True
        have run: "scan_candidates signal_q16 len config max_peaks (i + 1) g
                     (peak_indices[nat count := i]) (count + 1) = (buf, n)"
          using "1.prems"(4) True yes room by (simp add: eq g_def)
        have lt: "nat count < length peak_indices"
          using room "1.prems"(1,2) by linarith
        have k: "nat (max_peaks - count) = Suc (nat (max_peaks - (count + 1)))"
            "nat (count + 1) = Suc (nat count)"
          using room "1.prems"(1) by simp_all
        have ihc: "n = count + 1 + int (length (take (nat (max_peaks - (count + 1)))
                    (filter (is_candidate signal_q16 len config) [i + 1..len - 2]))) \<and>
            length buf = length (peak_indices[nat count := i]) \<and>
            take (nat n) buf = take (nat (count + 1)) (peak_indices[nat count := i]) @
               take (nat (max_peaks - (count + 1)))
                 (filter (is_candidate signal_q16 len config) [i + 1..len - 2]) \<and>
            drop (nat n) buf = drop (nat n) (peak_indices[nat count := i])"
          by (rule "1.IH"(1) [OF True g_def yes room])
            (use "1.prems"(1,2) run in \<open>simp_all add: g_def\<close>)
        note ih = ihc [THEN conjunct1]
          ihc [THEN conjunct2, THEN conjunct1, unfolded length_list_update]
          ihc [THEN conjunct2, THEN conjunct2, THEN conjunct1]
          ihc [THEN conjunct2, THEN conjunct2, THEN conjunct2]
        have f: "take (nat (max_peaks - count))
                   (filter (is_candidate signal_q16 len config) [i..len - 2]) =
                 i # take (nat (max_peaks - (count + 1)))
                   (filter (is_candidate signal_q16 len config) [i + 1..len - 2])"
          using yes cand by (simp add: up k)
        have "nat count < nat n"
          using ih(1) "1.prems"(1) by linarith
        then have d: "drop (nat n) (peak_indices[nat count := i]) = drop (nat n) peak_indices"
          by simp
        have t: "take (nat (count + 1)) (peak_indices[nat count := i]) =
                   take (nat count) peak_indices @ [i]"
          using lt by (simp add: take_Suc_conv_app_nth k)
        have c1: "n = count + int (length (i # take (nat (max_peaks - (count + 1)))
                    (filter (is_candidate signal_q16 len config) [i + 1..len - 2])))"
          using ih(1) by simp
        have c3: "take (nat n) buf = take (nat count) peak_indices @
                 i # take (nat (max_peaks - (count + 1)))
                   (filter (is_candidate signal_q16 len config) [i + 1..len - 2])"
          by (simp only: ih(3) t append_assoc append_Cons append_Nil)
        have c4: "drop (nat n) buf = drop (nat n) peak_indices"
          by (simp only: ih(4) d)
        show ?thesis
          unfolding f by (intro conjI) (fact c1, fact ih(2), fact c3, fact c4)
      qed
    qed
  qed
qed

lemma find_peak_candidates_result:
  assumes "3 \<le> len" "nat max_peaks \<le> length peak_indices"
  obtains buf where
    "find_peak_candidates signal_q16 len config peak_indices max_peaks =
       (PEAK_FP_OK, buf, int (length (candidates signal_q16 len config max_peaks)))"
    "length buf = length peak_indices"
    "take (length (candidates signal_q16 len config max_peaks)) buf =
       candidates signal_q16 len config max_peaks"
    "drop (length (candidates signal_q16 len config max_peaks)) buf =
       drop (length (candidates signal_q16 len config max_peaks)) peak_indices"
proof -
  obtain buf n where run:
    "scan_candidates signal_q16 len config max_peaks 1
       (compute_gradient_at signal_q16 len 0) peak_indices 0 = (buf, n)"
    by (cases "scan_candidates signal_q16 len config max_peaks 1
       (compute_gradient_at signal_q16 len 0) peak_indices 0")
  have "n = 0 + int (length (take (nat (max_peaks - 0))
                 (filter (is_candidate signal_q16 len config) [1..len - 2]))) \<and>
         length buf = length peak_indices \<and>
         take (nat n) buf = take (nat 0) peak_indices @
            take (nat (max_peaks - 0)) (filter (is_candidate signal_q16 len config) [1..len - 2]) \<and>
         drop (nat n) buf = drop (nat n) peak_indices"
    by (rule scan_candidates_result [OF _ assms(2) _ run]) simp_all
  note r = this [unfolded diff_zero add_0 nat_0 take_0 append_Nil, folded candidates_def]
  note n = r [THEN conjunct1]
  have "find_peak_candidates signal_q16 len config peak_indices max_peaks =
          (PEAK_FP_OK, buf, int (length (candidates signal_q16 len config max_peaks)))"
    using assms(1) run by (simp add: find_peak_candidates_def n)
  moreover note r [THEN conjunct2, THEN conjunct1]
  moreover note r [THEN conjunct2, THEN conjunct2, THEN conjunct1, unfolded n nat_int]
  moreover note r [THEN conjunct2, THEN conjunct2, THEN conjunct2, unfolded n nat_int]
  ultimately show ?thesis
    by (rule that)
qed

lemma find_peak_candidates_too_small:
  "len < 3 \<Longrightarrow>
   find_peak_candidates signal_q16 len config peak_indices max_peaks =
     (PEAK_FP_BUFFER_TOO_SMALL, peak_indices, 0)"
  by (simp add: find_peak_candidates_def)

lemma candidates_interior:
  "c \<in> set (candidates signal_q16 len config max_peaks) \<Longrightarrow> 1 \<le> c \<and> c \<le> len - 2"
  by (auto simp: candidates_def dest: in_set_takeD)

lemma signed_drop_bit_floor:
  "signed_drop_bit (Suc 0) (w :: int32) = word_of_int (sint w div 2)"
proof (rule signed_word_eqI)
  have "- (2 ^ 31) \<le> sint w" "sint w < 2 ^ 31"
    using sint_ge [of w] sint_lt [of w] by simp_all
  then have "signed_take_bit 31 (sint w div 2) = sint w div 2"
    by (intro signed_take_bit_int_eq_self) simp_all
  then show "sint (signed_drop_bit (Suc 0) w) = sint (word_of_int (sint w div 2) :: int32)"
    by (simp add: sint_signed_drop_bit_eq drop_bit_eq_div sint_sbintrunc')
qed

lemma sint_INT32_MIN: "sint INT32_MIN = - (2 ^ 31)"
  by (simp add: INT32_MIN_def)

lemma gradient_magnitude:
  assumes "g \<noteq> INT32_MIN"
  shows "sint (if 0 <s g then g else - g) = \<bar>sint g\<bar>"
proof -
  have "sint g \<noteq> - (2 ^ 31)"
    using assms sint_INT32_MIN by (metis signed_word_eqI)
  moreover have "- (2 ^ 31) \<le> sint g" "sint g < 2 ^ 31"
    using sint_ge [of g] sint_lt [of g] by simp_all
  ultimately have "signed_take_bit 31 (- sint g) = - sint g"
    by (intro signed_take_bit_int_eq_self) simp_all
  then have "sint (- g) = - sint g"
    by (simp add: sint_word_ariths)
  then show ?thesis
    by (simp add: word_sless_alt)
qed

lemma halved_not_INT32_MIN: "signed_drop_bit (Suc 0) (w :: int32) \<noteq> INT32_MIN"
proof
  assume "signed_drop_bit (Suc 0) w = INT32_MIN"
  then have "sint (signed_drop_bit (Suc 0) w) = - (2 ^ 31)"
    by (simp add: sint_INT32_MIN)
  moreover have "- (2 ^ 31) \<le> sint w"
    using sint_ge [of w] by simp
  ultimately show False
    by (simp add: sint_signed_drop_bit_eq drop_bit_eq_div)
qed

lemma sint_diff_small:
  fixes a b :: int32
  assumes "- (2 ^ 30) \<le> sint a" "sint a < 2 ^ 30" "- (2 ^ 30) \<le> sint b" "sint b < 2 ^ 30"
  shows "sint (a - b) = sint a - sint b"
proof -
  have "signed_take_bit 31 (sint a - sint b) = sint a - sint b"
    using assms by (intro signed_take_bit_int_eq_self) simp_all
  then show ?thesis
    by (simp add: sint_word_ariths)
qed

lemma compute_gradient_at_spec:
  assumes small: "\<forall>j<nat len. - (2 ^ 30) \<le> sint (signal_q16 ! j) \<and> sint (signal_q16 ! j) < 2 ^ 30"
    and "2 \<le> len" "0 \<le> i" "i < len"
  shows "sint (compute_gradient_at signal_q16 len i) = spec_gradient signal_q16 len i"
proof -
  have d: "sint (signal_q16 ! j - signal_q16 ! k) = sint (signal_q16 ! j) - sint (signal_q16 ! k)"
    if "j < nat len" "k < nat len" for j k
    using small that by (intro sint_diff_small) simp_all
  consider "i = 0" | "i \<noteq> 0" "i = len - 1" | "i \<noteq> 0" "i \<noteq> len - 1"
    by blast
  then show ?thesis
  proof cases
    case 1
    have "(1::nat) < nat len" "(0::nat) < nat len"
      using assms(2) by linarith+
    then show ?thesis
      using 1 d [of 1 0] by (simp add: compute_gradient_at_def spec_gradient_def)
  next
    case 2
    have "nat (len - 1) < nat len" "nat (len - 2) < nat len"
      using assms(2) by linarith+
    then show ?thesis
      using 2 d [of "nat (len - 1)" "nat (len - 2)"]
      by (simp add: compute_gradient_at_def spec_gradient_def)
  next
    case 3
    have "nat (i + 1) < nat len" "nat (i - 1) < nat len"
      using assms(3,4) 3 by linarith+
    then show ?thesis
      using 3 d [of "nat (i + 1)" "nat (i - 1)"]
      by (simp add: compute_gradient_at_def spec_gradient_def sint_signed_drop_bit_eq
          drop_bit_eq_div)
  qed
qed

lemma spec_gradient_small:
  assumes small: "\<forall>j<nat len. - (2 ^ 30) \<le> sint (signal_q16 ! j) \<and> sint (signal_q16 ! j) < 2 ^ 30"
    and "2 \<le> len" "0 \<le> i" "i < len"
  shows "- (2 ^ 31) < spec_gradient signal_q16 len i"
proof -
  have b: "- (2 ^ 31) < sint (signal_q16 ! j) - sint (signal_q16 ! k)"
    if "j < nat len" "k < nat len" for j k
    using small [rule_format, OF that(1)] small [rule_format, OF that(2)] by simp
  consider "i = 0" | "i \<noteq> 0" "i = len - 1" | "i \<noteq> 0" "i \<noteq> len - 1"
    by blast
  then show ?thesis
  proof cases
    case 1
    have "(1::nat) < nat len" "(0::nat) < nat len"
      using assms(2) by linarith+
    then show ?thesis
      using 1 b [of 1 0] by (simp add: spec_gradient_def)
  next
    case 2
    have "nat (len - 1) < nat len" "nat (len - 2) < nat len"
      using assms(2) by linarith+
    then show ?thesis
      using 2 b [of "nat (len - 1)" "nat (len - 2)"] by (simp add: spec_gradient_def)
  next
    case 3
    have "nat (i + 1) < nat len" "nat (i - 1) < nat len"
      using assms(3,4) 3 by linarith+
    then show ?thesis
      using 3 b [of "nat (i + 1)" "nat (i - 1)"] by (simp add: spec_gradient_def)
  qed
qed

lemma is_candidate_spec:
  assumes small: "\<forall>j<nat len. - (2 ^ 30) \<le> sint (signal_q16 ! j) \<and> sint (signal_q16 ! j) < 2 ^ 30"
    and "1 \<le> i" "i \<le> len - 2"
  shows "is_candidate signal_q16 len config i = spec_is_candidate signal_q16 len config i"
proof -
  define gp where "gp = compute_gradient_at signal_q16 len (i - 1)"
  define gc where "gc = compute_gradient_at signal_q16 len i"
  have len: "2 \<le> len"
    using assms(2,3) by simp
  have gp: "sint gp = spec_gradient signal_q16 len (i - 1)"
    unfolding gp_def using small len assms(2,3) by (intro compute_gradient_at_spec) simp_all
  have gc: "sint gc = spec_gradient signal_q16 len i"
    unfolding gc_def using small len assms(2,3) by (intro compute_gradient_at_spec) simp_all
  have "- (2 ^ 31) < spec_gradient signal_q16 len (i - 1)"
    using small len assms(2,3) by (intro spec_gradient_small) simp_all
  then have "gp \<noteq> INT32_MIN"
    using gp sint_INT32_MIN by auto
  then have mag: "sint (if 0 <s gp then gp else - gp) = \<bar>spec_gradient signal_q16 len (i - 1)\<bar>"
    using gradient_magnitude [of gp] gp by simp
  have z: "(0 <s gp) = (0 < spec_gradient signal_q16 len (i - 1))"
      "(gc \<le>s 0) = (spec_gradient signal_q16 len i \<le> 0)"
    using gp gc by (simp_all add: word_sless_alt word_sle_eq)
  note mag' = mag [unfolded z]
  show ?thesis
    unfolding is_candidate_def spec_is_candidate_def peak_conditions_def Let_def
      gp_def [symmetric] gc_def [symmetric]
      word_sle_eq [of "gradient_threshold_q16 config"] z mag'
    by (rule refl)
qed

lemma candidates_spec:
  assumes "\<forall>j<nat len. - (2 ^ 30) \<le> sint (signal_q16 ! j) \<and> sint (signal_q16 ! j) < 2 ^ 30"
  shows "candidates signal_q16 len config MAX_PEAKS = spec_candidates signal_q16 len config"
proof -
  have "filter (is_candidate signal_q16 len config) [1..len - 2] =
        filter (spec_is_candidate signal_q16 len config) [1..len - 2]"
    using assms by (intro filter_cong refl is_candidate_spec) simp_all
  moreover have "take (min a (length xs)) xs = take a xs" for a and xs :: "int list"
    by (cases "a \<le> length xs") (simp_all add: min_def)
  ultimately show ?thesis
    by (simp add: candidates_def spec_candidates_def Let_def)
qed


section \<open>Selection: the loop as a fold over the candidate list\<close>

lemma select_loop_foldl:
  "0 \<le> i \<Longrightarrow>
   select_loop signal_q16 len peak_indices num_peaks config i max_prominence best_idx =
     foldl (select_step signal_q16 len config) (max_prominence, best_idx)
       (map (\<lambda>k. peak_indices ! k) [nat i..<nat num_peaks])"
proof (induction signal_q16 len peak_indices num_peaks config i max_prominence best_idx
    rule: select_loop.induct)
  case (1 signal_q16 len peak_indices num_peaks config i max_prominence best_idx)
  note eq = select_loop.simps
    [of signal_q16 len peak_indices num_peaks config i max_prominence best_idx]
  show ?case
  proof (cases "i < num_peaks")
    case False
    with "1.prems" have "[nat i..<nat num_peaks] = []"
      by simp
    with False show ?thesis
      by (simp add: eq)
  next
    case True
    with "1.prems" have up: "[nat i..<nat num_peaks] = nat i # [nat (i + 1)..<nat num_peaks]"
      by (simp add: upt_conv_Cons nat_add_distrib)
    from "1.prems" have nn: "0 \<le> i + 1"
      by simp
    show ?thesis
      using True "1.IH" (1) [OF True refl refl _ nn] "1.IH" (2) [OF True refl refl _ nn]
      by (simp add: eq up select_step_def Let_def)
  qed
qed

lemma take_as_map_nth: "n \<le> length xs \<Longrightarrow> map (\<lambda>k. xs ! k) [0..<n] = take n xs"
  by (rule nth_equalityI) simp_all

lemma select_fold_result:
  fixes signal_q16 len config
  defines "P \<equiv> calculate_topological_prominence signal_q16 len"
    and "thr \<equiv> prominence_threshold_q16 config"
  assumes "foldl (select_step signal_q16 len config) (m, b) cands = (m', b')"
  shows "((m', b') = (m, b) \<and> (\<forall>c\<in>set cands. \<not> (thr \<le>s P c \<and> m <s P c))) \<or>
         (\<exists>pre post. cands = pre @ b' # post \<and> m' = P b' \<and> thr \<le>s P b' \<and> m <s P b' \<and>
            (\<forall>c\<in>set pre. thr \<le>s P c \<longrightarrow> P c <s P b') \<and>
            (\<forall>c\<in>set post. thr \<le>s P c \<longrightarrow> P c \<le>s P b'))"
  using assms(3)
proof (induction cands arbitrary: m' b' rule: rev_induct)
  case Nil
  then show ?case by simp
next
  case (snoc x xs)
  obtain m1 b1 where run: "foldl (select_step signal_q16 len config) (m, b) xs = (m1, b1)"
    by (cases "foldl (select_step signal_q16 len config) (m, b) xs")
  have "select_step signal_q16 len config (m1, b1) x = (m', b')"
    using snoc.prems by (simp add: run)
  then have step: "(m', b') = (if thr \<le>s P x \<and> m1 <s P x then (P x, x) else (m1, b1))"
    by (auto simp: select_step_def Let_def P_def thr_def split: if_splits)
  from snoc.IH [OF run] show ?case
  proof (elim disjE conjE exE)
    assume same: "(m1, b1) = (m, b)" and none: "\<forall>c\<in>set xs. \<not> (thr \<le>s P c \<and> m <s P c)"
    show ?thesis
    proof (cases "thr \<le>s P x \<and> m1 <s P x")
      case True
      with step same have "m' = P x" "b' = x" "m <s P x" "thr \<le>s P x"
        by simp_all
      moreover have "\<forall>c\<in>set xs. thr \<le>s P c \<longrightarrow> P c <s P x"
        using none \<open>m <s P x\<close> by (auto simp: word_sle_eq word_sless_alt)
      ultimately have "xs @ [x] = xs @ b' # [] \<and> m' = P b' \<and> thr \<le>s P b' \<and> m <s P b' \<and>
            (\<forall>c\<in>set xs. thr \<le>s P c \<longrightarrow> P c <s P b') \<and>
            (\<forall>c\<in>set []. thr \<le>s P c \<longrightarrow> P c \<le>s P b')"
        by simp
      then show ?thesis
        by blast
    next
      case False
      with step same none show ?thesis
        by auto
    qed
  next
    fix pre post
    assume dec: "xs = pre @ b1 # post" and best: "m1 = P b1" "thr \<le>s P b1" "m <s P b1"
      and pre: "\<forall>c\<in>set pre. thr \<le>s P c \<longrightarrow> P c <s P b1"
      and post: "\<forall>c\<in>set post. thr \<le>s P c \<longrightarrow> P c \<le>s P b1"
    show ?thesis
    proof (cases "thr \<le>s P x \<and> m1 <s P x")
      case True
      with step have r: "m' = P x" "b' = x" "P b1 <s P x" "thr \<le>s P x"
        using best(1) by simp_all
      have "\<forall>c\<in>set xs. thr \<le>s P c \<longrightarrow> P c <s P x"
        using pre post best r(3) dec by (auto simp: word_sle_eq word_sless_alt)
      moreover have "m <s P x"
        using best(3) r(3) by (simp add: word_sless_alt)
      ultimately have "xs @ [x] = xs @ b' # [] \<and> m' = P b' \<and> thr \<le>s P b' \<and> m <s P b' \<and>
            (\<forall>c\<in>set xs. thr \<le>s P c \<longrightarrow> P c <s P b') \<and>
            (\<forall>c\<in>set []. thr \<le>s P c \<longrightarrow> P c \<le>s P b')"
        using r by simp
      then show ?thesis
        by blast
    next
      case False
      with step have r: "m' = m1" "b' = b1"
        by simp_all
      have "thr \<le>s P x \<longrightarrow> P x \<le>s P b1"
        using False best(1) by (auto simp: word_sle_eq word_sless_alt)
      then have "xs @ [x] = pre @ b' # (post @ [x]) \<and> m' = P b' \<and> thr \<le>s P b' \<and> m <s P b' \<and>
            (\<forall>c\<in>set pre. thr \<le>s P c \<longrightarrow> P c <s P b') \<and>
            (\<forall>c\<in>set (post @ [x]). thr \<le>s P c \<longrightarrow> P c \<le>s P b')"
        using dec best pre post r by simp
      then show ?thesis
        by blast
    qed
  qed
qed

lemma select_prominent_peak_fold:
  assumes "nat num_peaks \<le> length peak_indices"
  shows "select_prominent_peak signal_q16 len peak_indices num_peaks config out outp =
     (let (m, b) = foldl (select_step signal_q16 len config) (INT32_MIN, - 1)
                     (take (nat num_peaks) peak_indices)
      in if 0 \<le> b then (PEAK_FP_OK, store b out, map_option (store m) outp)
         else (PEAK_FP_NO_PEAK_FOUND, out, outp))"
  using take_as_map_nth [OF assms]
  by (simp add: select_prominent_peak_def select_loop_foldl)

lemma select_prominent_peak_result:
  fixes signal_q16 len config
  defines "P \<equiv> calculate_topological_prominence signal_q16 len"
    and "thr \<equiv> prominence_threshold_q16 config"
  assumes cap: "nat num_peaks \<le> length peak_indices"
    and nonneg: "\<forall>c\<in>set (take (nat num_peaks) peak_indices). 0 \<le> c"
  shows "((\<forall>c\<in>set (take (nat num_peaks) peak_indices). \<not> (thr \<le>s P c \<and> INT32_MIN <s P c)) \<and>
          select_prominent_peak signal_q16 len peak_indices num_peaks config out outp =
            (PEAK_FP_NO_PEAK_FOUND, out, outp)) \<or>
         (\<exists>pre best post. take (nat num_peaks) peak_indices = pre @ best # post \<and>
            thr \<le>s P best \<and> INT32_MIN <s P best \<and>
            (\<forall>c\<in>set pre. thr \<le>s P c \<longrightarrow> P c <s P best) \<and>
            (\<forall>c\<in>set post. thr \<le>s P c \<longrightarrow> P c \<le>s P best) \<and>
            select_prominent_peak signal_q16 len peak_indices num_peaks config out outp =
              (PEAK_FP_OK, store best out, map_option (store (P best)) outp))"
proof -
  define cands where "cands = take (nat num_peaks) peak_indices"
  obtain m b where run:
    "foldl (select_step signal_q16 len config) (INT32_MIN, - 1) cands = (m, b)"
    by (cases "foldl (select_step signal_q16 len config) (INT32_MIN, - 1) cands")
  have res: "select_prominent_peak signal_q16 len peak_indices num_peaks config out outp =
     (if 0 \<le> b then (PEAK_FP_OK, store b out, map_option (store m) outp)
      else (PEAK_FP_NO_PEAK_FOUND, out, outp))"
    using run by (simp add: select_prominent_peak_fold [OF cap] cands_def)
  from select_fold_result [OF run, folded P_def thr_def] show ?thesis
  proof (elim disjE conjE exE)
    assume "(m, b) = (INT32_MIN, - 1)"
      and "\<forall>c\<in>set cands. \<not> (thr \<le>s P c \<and> INT32_MIN <s P c)"
    then show ?thesis
      using res by (simp add: cands_def)
  next
    fix pre post
    assume dec: "cands = pre @ b # post" and "m = P b" "thr \<le>s P b" "INT32_MIN <s P b"
      "\<forall>c\<in>set pre. thr \<le>s P c \<longrightarrow> P c <s P b"
      "\<forall>c\<in>set post. thr \<le>s P c \<longrightarrow> P c \<le>s P b"
    moreover from dec nonneg have "0 \<le> b"
      by (simp add: cands_def)
    ultimately have "take (nat num_peaks) peak_indices = pre @ b # post \<and>
            thr \<le>s P b \<and> INT32_MIN <s P b \<and>
            (\<forall>c\<in>set pre. thr \<le>s P c \<longrightarrow> P c <s P b) \<and>
            (\<forall>c\<in>set post. thr \<le>s P c \<longrightarrow> P c \<le>s P b) \<and>
            select_prominent_peak signal_q16 len peak_indices num_peaks config out outp =
              (PEAK_FP_OK, store b out, map_option (store (P b)) outp)"
      using res by (simp add: cands_def)
    then show ?thesis
      by blast
  qed
qed


lemma select_step_lower_threshold:
  fixes signal_q16 len config x s1 s2 t1 t2
  assumes le: "t2 \<le>s t1"
    and inv: "(s1 = s2 \<and> (s1 = (INT32_MIN, - 1) \<or> t1 \<le>s fst s1)) \<or>
              (s1 = (INT32_MIN, - 1) \<and> fst s2 <s t1)"
  defines "r1 \<equiv> select_step signal_q16 len (config\<lparr>prominence_threshold_q16 := t1\<rparr>) s1 x"
    and "r2 \<equiv> select_step signal_q16 len (config\<lparr>prominence_threshold_q16 := t2\<rparr>) s2 x"
  shows "(r1 = r2 \<and> (r1 = (INT32_MIN, - 1) \<or> t1 \<le>s fst r1)) \<or>
         (r1 = (INT32_MIN, - 1) \<and> fst r2 <s t1)"
proof -
  define p where "p = calculate_topological_prominence signal_q16 len x"
  have r: "r1 = (if t1 \<le>s p \<and> fst s1 <s p then (p, x) else s1)"
      "r2 = (if t2 \<le>s p \<and> fst s2 <s p then (p, x) else s2)"
    by (simp_all add: r1_def r2_def select_step_def Let_def p_def)
  have lo: "- (2 ^ 31) \<le> sint p" "- (2 ^ 31) \<le> sint (fst s2)"
    using sint_ge [of p] sint_ge [of "fst s2"] by simp_all
  from inv show ?thesis
  proof (elim disjE conjE)
    assume "s1 = s2" "s1 = (INT32_MIN, - 1)"
    then show ?thesis
      using le lo unfolding r
      by (auto simp: word_sle_eq word_sless_alt sint_INT32_MIN)
  next
    assume "s1 = s2" "t1 \<le>s fst s1"
    then show ?thesis
      using le lo unfolding r
      by (auto simp: word_sle_eq word_sless_alt sint_INT32_MIN)
  next
    assume "s1 = (INT32_MIN, - 1)" "fst s2 <s t1"
    then show ?thesis
      using le lo unfolding r
      by (auto simp: word_sle_eq word_sless_alt sint_INT32_MIN)
  qed
qed

lemma select_fold_lower_threshold:
  assumes "t2 \<le>s t1"
    and "(s1 = s2 \<and> (s1 = (INT32_MIN, - 1) \<or> t1 \<le>s fst s1)) \<or>
         (s1 = (INT32_MIN, - 1) \<and> fst s2 <s t1)"
  shows "(foldl (select_step signal_q16 len (config\<lparr>prominence_threshold_q16 := t1\<rparr>)) s1 cands =
          foldl (select_step signal_q16 len (config\<lparr>prominence_threshold_q16 := t2\<rparr>)) s2 cands \<and>
          (foldl (select_step signal_q16 len (config\<lparr>prominence_threshold_q16 := t1\<rparr>)) s1 cands =
             (INT32_MIN, - 1) \<or>
           t1 \<le>s fst (foldl (select_step signal_q16 len
                                  (config\<lparr>prominence_threshold_q16 := t1\<rparr>)) s1 cands))) \<or>
         (foldl (select_step signal_q16 len (config\<lparr>prominence_threshold_q16 := t1\<rparr>)) s1 cands =
            (INT32_MIN, - 1) \<and>
          fst (foldl (select_step signal_q16 len (config\<lparr>prominence_threshold_q16 := t2\<rparr>)) s2 cands)
            <s t1)"
  using assms(2)
proof (induction cands arbitrary: s1 s2)
  case Nil
  then show ?case by simp
next
  case (Cons x xs)
  show ?case
    unfolding foldl_Cons
    by (rule Cons.IH) (rule select_step_lower_threshold [OF assms(1) Cons.prems])
qed

lemma select_prominent_peak_lower_threshold:
  assumes "t2 \<le>s t1" "nat num_peaks \<le> length peak_indices"
    and ok: "select_prominent_peak signal_q16 len peak_indices num_peaks
           (config\<lparr>prominence_threshold_q16 := t1\<rparr>) out outp = (PEAK_FP_OK, out', outp')"
  shows "select_prominent_peak signal_q16 len peak_indices num_peaks
           (config\<lparr>prominence_threshold_q16 := t2\<rparr>) out outp = (PEAK_FP_OK, out', outp')"
proof -
  let ?f = "\<lambda>t. foldl (select_step signal_q16 len (config\<lparr>prominence_threshold_q16 := t\<rparr>))
                    (INT32_MIN, - 1) (take (nat num_peaks) peak_indices)"
  have "snd (?f t1) \<noteq> - 1"
    using ok by (auto simp: select_prominent_peak_fold [OF assms(2)] split: prod.splits if_splits)
  then have "?f t1 \<noteq> (INT32_MIN, - 1)"
    by auto
  moreover have "(?f t1 = ?f t2 \<and> (?f t1 = (INT32_MIN, - 1) \<or> t1 \<le>s fst (?f t1))) \<or>
                 (?f t1 = (INT32_MIN, - 1) \<and> fst (?f t2) <s t1)"
    by (rule select_fold_lower_threshold [OF assms(1)]) simp
  ultimately have "?f t2 = ?f t1"
    by auto
  then show ?thesis
    using ok by (simp add: select_prominent_peak_fold [OF assms(2)])
qed


section \<open>Prominence: sign and range\<close>

lemma walk_left_le: "walk_left signal_q16 peak_value i left_min \<le>s left_min"
proof (induction signal_q16 peak_value i left_min rule: walk_left.induct)
  case (1 signal_q16 peak_value i left_min)
  show ?case
  proof (cases "0 \<le> i \<and> \<not> peak_value \<le>s signal_q16 ! nat i")
    case True
    then have "walk_left signal_q16 peak_value i left_min \<le>s
                 (if signal_q16 ! nat i <s left_min then signal_q16 ! nat i else left_min)"
      using "1.IH" by (simp add: walk_left.simps [of signal_q16 peak_value i])
    then show ?thesis
      by (auto simp: word_sle_eq word_sless_alt split: if_splits)
  next
    case False
    then show ?thesis
      by (auto simp: walk_left.simps [of signal_q16 peak_value i])
  qed
qed

lemma walk_right_le: "walk_right signal_q16 len peak_value i right_min \<le>s right_min"
proof (induction signal_q16 len peak_value i right_min rule: walk_right.induct)
  case (1 signal_q16 len peak_value i right_min)
  show ?case
  proof (cases "i < len \<and> \<not> peak_value \<le>s signal_q16 ! nat i")
    case True
    then have "walk_right signal_q16 len peak_value i right_min \<le>s
                 (if signal_q16 ! nat i <s right_min then signal_q16 ! nat i else right_min)"
      using "1.IH" by (simp add: walk_right.simps [of signal_q16 len peak_value i])
    then show ?thesis
      by (auto simp: word_sle_eq word_sless_alt split: if_splits)
  next
    case False
    then show ?thesis
      by (auto simp: walk_right.simps [of signal_q16 len peak_value i])
  qed
qed

lemma reference_level_le_peak:
  "reference_level signal_q16 len peak_idx \<le>s signal_q16 ! nat peak_idx"
  by (simp add: reference_level_def Let_def walk_left_le walk_right_le)

lemma prominence_exact:
  assumes "sint (signal_q16 ! nat peak_idx) - sint (reference_level signal_q16 len peak_idx) < 2 ^ 31"
  shows "sint (calculate_topological_prominence signal_q16 len peak_idx) =
           sint (signal_q16 ! nat peak_idx) - sint (reference_level signal_q16 len peak_idx)"
proof -
  have "0 \<le> sint (signal_q16 ! nat peak_idx) - sint (reference_level signal_q16 len peak_idx)"
    using reference_level_le_peak [of signal_q16 len peak_idx] by (simp add: word_sle_eq)
  then have "signed_take_bit 31
               (sint (signal_q16 ! nat peak_idx) - sint (reference_level signal_q16 len peak_idx)) =
             sint (signal_q16 ! nat peak_idx) - sint (reference_level signal_q16 len peak_idx)"
    using assms by (intro signed_take_bit_int_eq_self) simp_all
  then show ?thesis
    by (simp add: calculate_topological_prominence_def sint_word_ariths)
qed

lemma prominence_nonneg:
  assumes "sint (signal_q16 ! nat peak_idx) - sint (reference_level signal_q16 len peak_idx) < 2 ^ 31"
  shows "0 \<le>s calculate_topological_prominence signal_q16 len peak_idx"
  using prominence_exact [OF assms] reference_level_le_peak [of signal_q16 len peak_idx]
  by (simp add: word_sle_eq)

lemma fold_min_member:
  "fold (\<lambda>v m. if v <s m then v else m) xs (m :: int32) \<in> insert m (set xs)"
  by (induction xs arbitrary: m) (simp, force)

lemma running_minimum_member:
  "running_minimum peak_value samples \<in> insert peak_value (set samples)"
  using fold_min_member [of "takeWhile (\<lambda>v. v <s peak_value) samples" peak_value]
    set_takeWhileD [of _ "\<lambda>v. v <s peak_value" samples]
  by (auto simp: running_minimum_def)

lemma reference_level_member:
  assumes "0 \<le> peak_idx" "peak_idx < len" "len \<le> int (length signal_q16)"
  shows "reference_level signal_q16 len peak_idx \<in> set (take (nat len) signal_q16)"
proof -
  define s where "s = take (nat len) signal_q16"
  define p where "p = nat peak_idx"
  have p: "p < length s"
    using assms by (simp add: s_def p_def)
  then have pv: "s ! p \<in> set s"
    by simp
  have "reference_level signal_q16 len peak_idx =
      (if running_minimum (s ! p) (rev (take p s)) <s running_minimum (s ! p) (drop (Suc p) s)
       then running_minimum (s ! p) (drop (Suc p) s)
       else running_minimum (s ! p) (rev (take p s)))"
    unfolding reference_level_refines_spec [OF assms]
    by (simp only: spec_reference_level_def Let_def s_def [symmetric] p_def [symmetric])
  moreover have "running_minimum (s ! p) (rev (take p s)) \<in> set s"
    using running_minimum_member [of "s ! p" "rev (take p s)"] pv
    by (auto dest: in_set_takeD)
  moreover have "running_minimum (s ! p) (drop (Suc p) s) \<in> set s"
    using running_minimum_member [of "s ! p" "drop (Suc p) s"] pv
    by (auto dest: in_set_dropD)
  ultimately show ?thesis
    by (simp add: s_def)
qed

lemma prominence_nonneg_nonneg_signal:
  assumes "0 \<le> peak_idx" "peak_idx < len" "len \<le> int (length signal_q16)"
    and "\<forall>v\<in>set (take (nat len) signal_q16). 0 \<le>s v"
  shows "0 \<le>s calculate_topological_prominence signal_q16 len peak_idx"
proof (rule prominence_nonneg)
  have "0 \<le> sint (reference_level signal_q16 len peak_idx)"
    using reference_level_member [OF assms(1-3)] assms(4) by (auto simp: word_sle_eq)
  moreover have "sint (signal_q16 ! nat peak_idx) < 2 ^ 31"
    using sint_lt [of "signal_q16 ! nat peak_idx"] by simp
  ultimately show "sint (signal_q16 ! nat peak_idx) -
      sint (reference_level signal_q16 len peak_idx) < 2 ^ 31"
    by simp
qed

lemma prominence_matches_spec:
  assumes "0 \<le> peak_idx" "peak_idx < len" "len \<le> int (length signal_q16)"
    and "spec_prominence signal_q16 len peak_idx < 2 ^ 31"
  shows "sint (calculate_topological_prominence signal_q16 len peak_idx) =
           spec_prominence signal_q16 len peak_idx"
proof -
  have "nat peak_idx < nat len"
    using assms(1,2) by linarith
  then have v: "take (nat len) signal_q16 ! nat peak_idx = signal_q16 ! nat peak_idx"
    by simp
  have s: "spec_prominence signal_q16 len peak_idx =
      sint (signal_q16 ! nat peak_idx) - sint (reference_level signal_q16 len peak_idx)"
    unfolding spec_prominence_def v reference_level_refines_spec [OF assms(1-3)] by (rule refl)
  show ?thesis
    unfolding s by (rule prominence_exact) (use assms(4) s in simp)
qed


section \<open>Entry points: conversion and what the later stages read\<close>

lemma convert_signal_result:
  assumes "0 \<le> i" "len \<le> int (length buffer)"
  shows "length (convert_signal signal len i buffer) = length buffer \<and>
         (\<forall>j<length buffer. convert_signal signal len i buffer ! j =
            (if nat i \<le> j \<and> int j < len then to_q16 (signal ! j) else buffer ! j))"
  using assms
proof (induction signal len i buffer rule: convert_signal.induct)
  case (1 signal len i buffer)
  note eq = convert_signal.simps [of signal len i buffer]
  show ?case
  proof (cases "i < len")
    case False
    then show ?thesis
      by (auto simp: eq)
  next
    case True
    define b where "b = buffer[nat i := to_q16 (signal ! nat i)]"
    have ih: "length (convert_signal signal len (i + 1) b) = length b \<and>
         (\<forall>j<length b. convert_signal signal len (i + 1) b ! j =
            (if nat (i + 1) \<le> j \<and> int j < len then to_q16 (signal ! j) else b ! j))"
      unfolding b_def using "1.prems" by (intro "1.IH" [OF True]) simp_all
    have run: "convert_signal signal len i buffer = convert_signal signal len (i + 1) b"
      using True by (simp add: eq b_def)
    have lb: "length b = length buffer"
      by (simp add: b_def)
    have "convert_signal signal len (i + 1) b ! j =
            (if nat i \<le> j \<and> int j < len then to_q16 (signal ! j) else buffer ! j)"
      if "j < length buffer" for j
    proof -
      have "convert_signal signal len (i + 1) b ! j =
              (if nat (i + 1) \<le> j \<and> int j < len then to_q16 (signal ! j) else b ! j)"
        using ih that lb by simp
      moreover have "b ! j = (if j = nat i then to_q16 (signal ! nat i) else buffer ! j)"
        using that by (simp add: b_def nth_list_update)
      ultimately show ?thesis
        using True "1.prems"(1) by (auto simp: nat_add_distrib)
    qed
    then show ?thesis
      using ih lb by (simp add: run)
  qed
qed

lemma take_convert_signal:
  assumes "len \<le> int (length buffer)"
  shows "take (nat len) (convert_signal signal len 0 buffer) = converted signal len"
    and "length (convert_signal signal len 0 buffer) = length buffer"
proof -
  have r: "length (convert_signal signal len 0 buffer) = length buffer \<and>
         (\<forall>j<length buffer. convert_signal signal len 0 buffer ! j =
            (if nat 0 \<le> j \<and> int j < len then to_q16 (signal ! j) else buffer ! j))"
    by (rule convert_signal_result [OF _ assms]) simp
  then show "length (convert_signal signal len 0 buffer) = length buffer"
    by simp
  have n: "nat len \<le> length buffer"
    using assms by linarith
  show "take (nat len) (convert_signal signal len 0 buffer) = converted signal len"
  proof (rule nth_equalityI)
    show "length (take (nat len) (convert_signal signal len 0 buffer)) =
            length (converted signal len)"
      using r n by (simp add: converted_def)
  next
    fix j assume "j < length (take (nat len) (convert_signal signal len 0 buffer))"
    then have j: "j < nat len" "j < length buffer"
      using r n by simp_all
    then have "int j < len"
      by linarith
    then show "take (nat len) (convert_signal signal len 0 buffer) ! j = converted signal len ! j"
      using r j by (simp add: converted_def)
  qed
qed

lemma converted_take:
  "len \<le> int (length signal) \<Longrightarrow> converted signal len = map to_q16 (take (nat len) signal)"
  by (rule nth_equalityI) (simp_all add: converted_def)

lemma length_converted [simp]: "length (converted signal len) = nat len"
  by (simp add: converted_def)

lemma is_candidate_prefix:
  assumes "take (nat len) s1 = take (nat len) s2" "1 \<le> i" "i \<le> len - 2"
  shows "is_candidate s1 len config i = is_candidate s2 len config i"
proof -
  have eq: "s1 ! j = s2 ! j" if "j < nat len" for j
    using that nth_take [of j "nat len" s1] nth_take [of j "nat len" s2] assms(1) by simp
  have "s1 ! nat (i - 1) = s2 ! nat (i - 1)" "s1 ! nat i = s2 ! nat i"
      "s1 ! nat (i + 1) = s2 ! nat (i + 1)" "s1 ! nat (i - 2) = s2 ! nat (i - 2)"
      "s1 ! 0 = s2 ! 0" "s1 ! 1 = s2 ! 1"
    using assms(2,3) by (simp_all add: eq)
  moreover have "i - 1 \<noteq> len - 1" "i \<noteq> len - 1" "i \<noteq> 0"
    using assms(2,3) by simp_all
  ultimately show ?thesis
    unfolding is_candidate_def peak_conditions_def compute_gradient_at_def Let_def
    by (cases "i = 1") (simp_all add: diff_diff_eq)
qed

lemma candidates_prefix:
  assumes "take (nat len) s1 = take (nat len) s2"
  shows "candidates s1 len config max_peaks = candidates s2 len config max_peaks"
proof -
  have "filter (is_candidate s1 len config) [1..len - 2] =
        filter (is_candidate s2 len config) [1..len - 2]"
    using assms by (intro filter_cong refl is_candidate_prefix) simp_all
  then show ?thesis
    by (simp add: candidates_def)
qed

lemma spec_reference_level_prefix:
  assumes "take (nat len) s1 = take (nat len) s2"
  shows "spec_reference_level s1 len c = spec_reference_level s2 len c"
  unfolding spec_reference_level_def assms by (rule refl)

lemma prominence_prefix:
  assumes "take (nat len) s1 = take (nat len) s2" "0 \<le> c" "c < len"
    "len \<le> int (length s1)" "len \<le> int (length s2)"
  shows "calculate_topological_prominence s1 len c = calculate_topological_prominence s2 len c"
proof -
  have "nat c < nat len"
    using assms(2,3) by linarith
  then have "s1 ! nat c = s2 ! nat c"
    using nth_take [of "nat c" "nat len" s1] nth_take [of "nat c" "nat len" s2]
    unfolding assms(1) by simp
  moreover have "calculate_topological_prominence s1 len c =
      s1 ! nat c - spec_reference_level s1 len c"
    using assms(2,3,4) by (rule prominence_refines_spec)
  moreover have "calculate_topological_prominence s2 len c =
      s2 ! nat c - spec_reference_level s2 len c"
    using assms(2,3,5) by (rule prominence_refines_spec)
  moreover have "spec_reference_level s1 len c = spec_reference_level s2 len c"
    using assms(1) by (rule spec_reference_level_prefix)
  ultimately show ?thesis
    by (simp only:)
qed

lemma select_fold_prefix:
  assumes "take (nat len) s1 = take (nat len) s2"
    "len \<le> int (length s1)" "len \<le> int (length s2)"
    "\<forall>c\<in>set cands. 0 \<le> c \<and> c < len"
  shows "foldl (select_step s1 len config) state cands =
         foldl (select_step s2 len config) state cands"
  using assms(4)
proof (induction cands arbitrary: state)
  case Nil
  then show ?case by simp
next
  case (Cons c cs)
  from Cons.prems have "0 \<le> c" "c < len"
    by simp_all
  with assms(1) have "calculate_topological_prominence s1 len c =
             calculate_topological_prominence s2 len c"
    using assms(2,3) by (rule prominence_prefix)
  then have "select_step s1 len config state c = select_step s2 len config state c"
    by (simp add: select_step_def)
  with Cons show ?case
    by simp
qed

lemma stages_detect:
  assumes q: "take (nat len) q1 = converted signal len" "len \<le> int (length q1)"
    and cap: "nat MAX_PEAKS \<le> length pbuf" and pos: "0 < len"
  shows "(case find_peak_candidates q1 len config pbuf MAX_PEAKS of
            (result, pbuf', n) \<Rightarrow>
              if result \<noteq> PEAK_FP_OK then (result, out)
              else if n = 0 then (PEAK_FP_NO_PEAK_FOUND, out)
              else (case select_prominent_peak q1 len pbuf' n config out None of
                      (r, out', _) \<Rightarrow> (r, out'))) =
         detect signal len config out"
proof (cases "len < 3")
  case True
  then show ?thesis
    by (simp add: find_peak_candidates_too_small detect_def)
next
  case False
  then have len3: "3 \<le> len"
    by simp
  define q where "q = converted signal len"
  define C where "C = candidates q len config MAX_PEAKS"
  have tq: "take (nat len) q1 = take (nat len) q"
    using q(1) by (simp add: q_def)
  have C1: "candidates q1 len config MAX_PEAKS = C"
    unfolding C_def using tq by (rule candidates_prefix)
  obtain buf where buf:
    "find_peak_candidates q1 len config pbuf MAX_PEAKS = (PEAK_FP_OK, buf, int (length C))"
    "length buf = length pbuf" "take (length C) buf = C"
    using find_peak_candidates_result [OF len3 cap, of q1 config] unfolding C1 by blast
  have lenC: "length C \<le> nat MAX_PEAKS"
    by (simp add: C_def candidates_def)
  have valid: "\<forall>c\<in>set C. 0 \<le> c \<and> c < len"
    using candidates_interior [of _ q len config MAX_PEAKS] by (fastforce simp: C_def)
  have lq: "len \<le> int (length q)"
    using pos by (simp add: q_def)
  have fold_eq: "foldl (select_step q1 len config) (INT32_MIN, - 1) C =
                 foldl (select_step q len config) (INT32_MIN, - 1) C"
    using tq q(2) lq valid by (rule select_fold_prefix)
  have s1: "select_prominent_peak q1 len buf (int (length C)) config out None =
     (let (m, b) = foldl (select_step q1 len config) (INT32_MIN, - 1) C
      in if 0 \<le> b then (PEAK_FP_OK, store b out, map_option (store m) None)
         else (PEAK_FP_NO_PEAK_FOUND, out, None))"
    using select_prominent_peak_fold [of "int (length C)" buf q1 len config out None]
      buf(2,3) lenC cap by simp
  have s2: "select_prominent_peak q len C (int (length C)) config out None =
     (let (m, b) = foldl (select_step q len config) (INT32_MIN, - 1) C
      in if 0 \<le> b then (PEAK_FP_OK, store b out, map_option (store m) None)
         else (PEAK_FP_NO_PEAK_FOUND, out, None))"
    using select_prominent_peak_fold [of "int (length C)" C q len config out None] by simp
  have sel: "select_prominent_peak q1 len buf (int (length C)) config out None =
             select_prominent_peak q len C (int (length C)) config out None"
    unfolding s1 s2 fold_eq by (rule refl)
  have "detect signal len config out =
          (if C = [] then (PEAK_FP_NO_PEAK_FOUND, out)
           else (case select_prominent_peak q len C (int (length C)) config out None of
                   (r, out', _) \<Rightarrow> (r, out')))"
    using len3 by (simp add: detect_def Let_def q_def [symmetric] C_def [symmetric])
  then show ?thesis
    by (simp add: buf(1) sel)
qed

lemma find_prominent_peak_fp_detect:
  assumes "statics_ok st" "0 < len" "len \<le> MAX_SIGNAL_LENGTH"
  shows "fst (find_prominent_peak_fp st (Some signal) len (Some out) user_config) =
           fst (detect signal len (case user_config of Some c \<Rightarrow> c | None \<Rightarrow> default_config_fp) out) \<and>
         fst (snd (find_prominent_peak_fp st (Some signal) len (Some out) user_config)) =
           Some (snd (detect signal len
                   (case user_config of Some c \<Rightarrow> c | None \<Rightarrow> default_config_fp) out))"
proof -
  define config where "config = (case user_config of Some c \<Rightarrow> c | None \<Rightarrow> default_config_fp)"
  define q1 where "q1 = convert_signal signal len 0 (s_signal_q16 st)"
  have lb: "len \<le> int (length (s_signal_q16 st))"
    using assms(1,3) by (simp add: statics_ok_def)
  have q: "take (nat len) q1 = converted signal len" "len \<le> int (length q1)"
    using take_convert_signal [OF lb, of signal] lb by (simp_all add: q1_def)
  have cap: "nat MAX_PEAKS \<le> length (s_peak_candidates st)"
    using assms(1) unfolding statics_ok_def by linarith
  note d = stages_detect [OF q cap assms(2), where config = config and out = out, symmetric]
  show ?thesis
    unfolding config_def [symmetric] d
    using assms(2,3)
    by (simp add: find_prominent_peak_fp_def Let_def config_def [symmetric] q1_def [symmetric]
        split: prod.splits)
qed

lemma find_prominent_peak_fp_buffered_detect:
  assumes "len \<le> int (length qbuf)" "nat MAX_PEAKS \<le> length pbuf"
    "0 < len" "len \<le> MAX_SIGNAL_LENGTH"
  shows "fst (find_prominent_peak_fp_buffered (Some signal) len (Some out) user_config
                (Some qbuf) (Some pbuf)) =
           fst (detect signal len (case user_config of Some c \<Rightarrow> c | None \<Rightarrow> default_config_fp) out) \<and>
         fst (snd (find_prominent_peak_fp_buffered (Some signal) len (Some out) user_config
                (Some qbuf) (Some pbuf))) =
           Some (snd (detect signal len
                   (case user_config of Some c \<Rightarrow> c | None \<Rightarrow> default_config_fp) out))"
proof -
  define config where "config = (case user_config of Some c \<Rightarrow> c | None \<Rightarrow> default_config_fp)"
  define q1 where "q1 = convert_signal signal len 0 qbuf"
  have q: "take (nat len) q1 = converted signal len" "len \<le> int (length q1)"
    using take_convert_signal [OF assms(1), of signal] assms(1) by (simp_all add: q1_def)
  note d = stages_detect [OF q assms(2,3), where config = config and out = out, symmetric]
  show ?thesis
    unfolding config_def [symmetric] d
    using assms(3,4)
    by (simp add: find_prominent_peak_fp_buffered_def Let_def config_def [symmetric]
        q1_def [symmetric] split: prod.splits)
qed

lemma find_peak_candidates_code:
  "fst (find_peak_candidates q len config pbuf max_peaks) =
     (if len < 3 then PEAK_FP_BUFFER_TOO_SMALL else PEAK_FP_OK)"
  by (simp add: find_peak_candidates_def split: prod.splits)

lemma select_prominent_peak_frame:
  "(\<exists>m b. select_prominent_peak q len pbuf n config out outp =
            (PEAK_FP_OK, store b out, map_option (store m) outp)) \<or>
   select_prominent_peak q len pbuf n config out outp = (PEAK_FP_NO_PEAK_FOUND, out, outp)"
  by (auto simp: select_prominent_peak_def split: prod.splits)

lemma find_prominent_peak_fp_invalid:
  "signal = None \<or> peak_index = None \<or> len \<le> 0 \<or> MAX_SIGNAL_LENGTH < len \<Longrightarrow>
   find_prominent_peak_fp st signal len peak_index user_config =
     (PEAK_FP_INVALID_INPUT, peak_index, st)"
  by (auto simp: find_prominent_peak_fp_def split: option.splits)

lemma find_prominent_peak_fp_too_small:
  assumes "0 < len" "len \<le> MAX_SIGNAL_LENGTH" "len < 3"
  shows "find_prominent_peak_fp st (Some signal) len (Some out) user_config =
     (PEAK_FP_BUFFER_TOO_SMALL, Some out,
      st\<lparr>s_signal_q16 := convert_signal signal len 0 (s_signal_q16 st)\<rparr>)"
  using assms by (simp add: find_prominent_peak_fp_def find_peak_candidates_too_small)

lemma find_prominent_peak_fp_valid:
  assumes "0 < len" "len \<le> MAX_SIGNAL_LENGTH" "3 \<le> len"
  shows "(\<exists>idx st'. find_prominent_peak_fp st (Some signal) len (Some out) user_config =
            (PEAK_FP_OK, Some (store idx out), st')) \<or>
         (\<exists>st'. find_prominent_peak_fp st (Some signal) len (Some out) user_config =
            (PEAK_FP_NO_PEAK_FOUND, Some out, st'))"
proof -
  define config where "config = (case user_config of Some c \<Rightarrow> c | None \<Rightarrow> default_config_fp)"
  define q1 where "q1 = convert_signal signal len 0 (s_signal_q16 st)"
  obtain r pbuf n where fc:
    "find_peak_candidates q1 len config (s_peak_candidates st) MAX_PEAKS = (r, pbuf, n)"
    by (cases "find_peak_candidates q1 len config (s_peak_candidates st) MAX_PEAKS")
  have r: "r = PEAK_FP_OK"
    using find_peak_candidates_code [of q1 len config "s_peak_candidates st" MAX_PEAKS] assms(3)
    by (simp add: fc)
  show ?thesis
  proof (cases "n = 0")
    case True
    then show ?thesis
      using assms(1,2) r
      by (simp add: find_prominent_peak_fp_def Let_def config_def [symmetric]
          q1_def [symmetric] fc)
  next
    case False
    from select_prominent_peak_frame [of q1 len pbuf n config out None]
    show ?thesis
      using assms(1,2) r False
      by (auto simp: find_prominent_peak_fp_def Let_def config_def [symmetric]
          q1_def [symmetric] fc)
  qed
qed


section \<open>Reversing the signal\<close>

lemma spec_reference_level_rev:
  assumes "length q = nat len" "0 \<le> i" "i < len"
  shows "spec_reference_level (rev q) len (len - 1 - i) = spec_reference_level q len i"
proof -
  define n where "n = nat i"
  have n: "n < length q" "nat (len - 1 - i) = length q - Suc n"
    using assms unfolding n_def by linarith+
  have t: "take (nat len) (rev q) = rev q" "take (nat len) q = q"
    using assms(1) by simp_all
  have pv: "rev q ! (length q - Suc n) = q ! n"
    using n(1) by (simp add: rev_nth)
  have l: "rev (take (length q - Suc n) (rev q)) = drop (Suc n) q"
    using n(1) by (simp add: take_rev)
  have r: "drop (Suc (length q - Suc n)) (rev q) = rev (take n q)"
    using n(1) by (simp add: drop_rev Suc_diff_Suc)
  show ?thesis
    unfolding spec_reference_level_def Let_def t n(2) n_def [symmetric] pv l r
    by (simp only: greater_of_two [of "running_minimum (q ! n) (rev (take n q))"])
qed

lemma prominence_rev:
  assumes "length q = nat len" "0 \<le> i" "i < len"
  shows "calculate_topological_prominence (rev q) len (len - 1 - i) =
         calculate_topological_prominence q len i"
proof -
  have n: "nat i < length q" "nat (len - 1 - i) = length q - Suc (nat i)"
    using assms by linarith+
  have v: "rev q ! nat (len - 1 - i) = q ! nat i"
    unfolding n(2) using n(1) by (simp add: rev_nth)
  have "calculate_topological_prominence (rev q) len (len - 1 - i) =
        rev q ! nat (len - 1 - i) - spec_reference_level (rev q) len (len - 1 - i)"
    using assms by (intro prominence_refines_spec) simp_all
  moreover have "calculate_topological_prominence q len i =
        q ! nat i - spec_reference_level q len i"
    using assms by (intro prominence_refines_spec) simp_all
  moreover have "spec_reference_level (rev q) len (len - 1 - i) = spec_reference_level q len i"
    using assms by (rule spec_reference_level_rev)
  ultimately show ?thesis
    by (simp only: v)
qed

lemma converted_rev:
  assumes "len \<le> int (length signal)"
  shows "converted (rev (take (nat len) signal)) len = rev (converted signal len)"
proof -
  have "converted (rev (take (nat len) signal)) len =
        map to_q16 (take (nat len) (rev (take (nat len) signal)))"
    using assms by (intro converted_take) simp
  also have "take (nat len) (rev (take (nat len) signal)) = rev (take (nat len) signal)"
    by simp
  finally show ?thesis
    using assms by (simp add: converted_take rev_map)
qed

lemma detect_success:
  assumes "fst (detect signal len config out) = PEAK_FP_OK"
  shows "\<exists>i. snd (detect signal len config out) = store i out \<and> 1 \<le> i \<and> i \<le> len - 2 \<and>
           prominence_threshold_q16 config \<le>s
             calculate_topological_prominence (converted signal len) len i \<and>
           INT32_MIN <s calculate_topological_prominence (converted signal len) len i"
proof -
  define q where "q = converted signal len"
  define C where "C = candidates q len config MAX_PEAKS"
  have interior: "\<forall>c\<in>set C. 1 \<le> c \<and> c \<le> len - 2"
    using candidates_interior [of _ q len config MAX_PEAKS] by (simp add: C_def)
  have d: "detect signal len config out =
     (if len < 3 then (PEAK_FP_BUFFER_TOO_SMALL, out)
      else if C = [] then (PEAK_FP_NO_PEAK_FOUND, out)
      else (case select_prominent_peak q len C (int (length C)) config out None of
              (r, out', _) \<Rightarrow> (r, out')))"
    by (simp add: detect_def Let_def q_def [symmetric] C_def [symmetric])
  have h: "nat (int (length C)) \<le> length C" "\<forall>c\<in>set (take (nat (int (length C))) C). 0 \<le> c"
    using interior by auto
  have "((\<forall>c\<in>set (take (nat (int (length C))) C).
            \<not> (prominence_threshold_q16 config \<le>s calculate_topological_prominence q len c \<and>
               INT32_MIN <s calculate_topological_prominence q len c)) \<and>
          select_prominent_peak q len C (int (length C)) config out None =
            (PEAK_FP_NO_PEAK_FOUND, out, None)) \<or>
         (\<exists>pre best post. take (nat (int (length C))) C = pre @ best # post \<and>
            prominence_threshold_q16 config \<le>s calculate_topological_prominence q len best \<and>
            INT32_MIN <s calculate_topological_prominence q len best \<and>
            (\<forall>c\<in>set pre. prominence_threshold_q16 config
                 \<le>s calculate_topological_prominence q len c \<longrightarrow>
               calculate_topological_prominence q len c
                 <s calculate_topological_prominence q len best) \<and>
            (\<forall>c\<in>set post. prominence_threshold_q16 config
                 \<le>s calculate_topological_prominence q len c \<longrightarrow>
               calculate_topological_prominence q len c
                 \<le>s calculate_topological_prominence q len best) \<and>
            select_prominent_peak q len C (int (length C)) config out None =
              (PEAK_FP_OK, store best out,
               map_option (store (calculate_topological_prominence q len best)) None))"
    by (rule select_prominent_peak_result [OF h])
  then show ?thesis
  proof (elim disjE conjE exE)
    assume "select_prominent_peak q len C (int (length C)) config out None =
              (PEAK_FP_NO_PEAK_FOUND, out, None)"
    with assms d show ?thesis
      by (simp split: if_splits)
  next
    fix pre best post
    assume dec: "take (nat (int (length C))) C = pre @ best # post"
      and thr: "prominence_threshold_q16 config \<le>s calculate_topological_prominence q len best"
        "INT32_MIN <s calculate_topological_prominence q len best"
      and res: "select_prominent_peak q len C (int (length C)) config out None =
              (PEAK_FP_OK, store best out,
               map_option (store (calculate_topological_prominence q len best)) None)"
    from dec have "best \<in> set C"
      by (metis in_set_conv_decomp nat_int take_all order_refl)
    with interior have "1 \<le> best" "best \<le> len - 2"
      by simp_all
    moreover have "snd (detect signal len config out) = store best out"
      using assms d res by (simp split: if_splits)
    ultimately show ?thesis
      using thr unfolding q_def by blast
  qed
qed

lemma detect_dominates_candidate:
  assumes m: "m \<in> set (candidates (converted signal len) len config MAX_PEAKS)"
    and thr: "prominence_threshold_q16 config \<le>s
                calculate_topological_prominence (converted signal len) len m"
      "INT32_MIN <s calculate_topological_prominence (converted signal len) len m"
  shows "\<exists>j. detect signal len config out = (PEAK_FP_OK, store j out) \<and>
           calculate_topological_prominence (converted signal len) len m \<le>s
             calculate_topological_prominence (converted signal len) len j"
proof -
  define q where "q = converted signal len"
  define C where "C = candidates q len config MAX_PEAKS"
  have interior: "\<forall>c\<in>set C. 1 \<le> c \<and> c \<le> len - 2"
    using candidates_interior [of _ q len config MAX_PEAKS] by (simp add: C_def)
  have mC: "m \<in> set C"
    using m by (simp add: C_def q_def)
  then have len3: "\<not> len < 3" and ne: "C \<noteq> []"
    using interior by auto
  have d: "detect signal len config out =
     (case select_prominent_peak q len C (int (length C)) config out None of
              (r, out', _) \<Rightarrow> (r, out'))"
    using len3 ne by (simp add: detect_def Let_def q_def [symmetric] C_def [symmetric])
  have h: "nat (int (length C)) \<le> length C" "\<forall>c\<in>set (take (nat (int (length C))) C). 0 \<le> c"
    using interior by auto
  have "((\<forall>c\<in>set (take (nat (int (length C))) C).
            \<not> (prominence_threshold_q16 config \<le>s calculate_topological_prominence q len c \<and>
               INT32_MIN <s calculate_topological_prominence q len c)) \<and>
          select_prominent_peak q len C (int (length C)) config out None =
            (PEAK_FP_NO_PEAK_FOUND, out, None)) \<or>
         (\<exists>pre best post. take (nat (int (length C))) C = pre @ best # post \<and>
            prominence_threshold_q16 config \<le>s calculate_topological_prominence q len best \<and>
            INT32_MIN <s calculate_topological_prominence q len best \<and>
            (\<forall>c\<in>set pre. prominence_threshold_q16 config
                 \<le>s calculate_topological_prominence q len c \<longrightarrow>
               calculate_topological_prominence q len c
                 <s calculate_topological_prominence q len best) \<and>
            (\<forall>c\<in>set post. prominence_threshold_q16 config
                 \<le>s calculate_topological_prominence q len c \<longrightarrow>
               calculate_topological_prominence q len c
                 \<le>s calculate_topological_prominence q len best) \<and>
            select_prominent_peak q len C (int (length C)) config out None =
              (PEAK_FP_OK, store best out,
               map_option (store (calculate_topological_prominence q len best)) None))"
    by (rule select_prominent_peak_result [OF h])
  then show ?thesis
  proof (elim disjE conjE exE)
    assume "\<forall>c\<in>set (take (nat (int (length C))) C).
            \<not> (prominence_threshold_q16 config \<le>s calculate_topological_prominence q len c \<and>
               INT32_MIN <s calculate_topological_prominence q len c)"
    with mC thr show ?thesis
      by (simp add: q_def)
  next
    fix pre best post
    assume dec: "take (nat (int (length C))) C = pre @ best # post"
      and pre: "\<forall>c\<in>set pre. prominence_threshold_q16 config
                 \<le>s calculate_topological_prominence q len c \<longrightarrow>
               calculate_topological_prominence q len c
                 <s calculate_topological_prominence q len best"
      and post: "\<forall>c\<in>set post. prominence_threshold_q16 config
                 \<le>s calculate_topological_prominence q len c \<longrightarrow>
               calculate_topological_prominence q len c
                 \<le>s calculate_topological_prominence q len best"
      and res: "select_prominent_peak q len C (int (length C)) config out None =
              (PEAK_FP_OK, store best out,
               map_option (store (calculate_topological_prominence q len best)) None)"
    from dec have "C = pre @ best # post"
      by simp
    with mC have "m \<in> set pre \<or> m = best \<or> m \<in> set post"
      by auto
    then have "calculate_topological_prominence q len m \<le>s
               calculate_topological_prominence q len best"
      using pre post thr(1) unfolding q_def [symmetric]
      by (auto simp: word_sle_eq word_sless_alt)
    moreover have "detect signal len config out = (PEAK_FP_OK, store best out)"
      using d res by simp
    ultimately show ?thesis
      unfolding q_def by blast
  qed
qed


section \<open>What holds of the claims that fail on overflow\<close>

lemma prominence_scenario_c:
  "calculate_topological_prominence (map to_q16 [0, 10, 5, 20, 5, 15, 0]) 7 3 = push_bit 16 20 \<and>
   spec_prominence (map to_q16 [0, 10, 5, 20, 5, 15, 0]) 7 3 = 20 * 2 ^ 16"
  by code_simp

lemma find_peak_candidates_spec_in_range:
  assumes "3 \<le> len" "nat MAX_PEAKS \<le> length peak_indices"
    and "\<forall>j<nat len. - (2 ^ 30) \<le> sint (signal_q16 ! j) \<and> sint (signal_q16 ! j) < 2 ^ 30"
  shows "\<exists>buf. find_peak_candidates signal_q16 len config peak_indices MAX_PEAKS =
           (PEAK_FP_OK, buf, int (length (spec_candidates signal_q16 len config))) \<and>
         length buf = length peak_indices \<and>
         take (length (spec_candidates signal_q16 len config)) buf =
           spec_candidates signal_q16 len config \<and>
         drop (length (spec_candidates signal_q16 len config)) buf =
           drop (length (spec_candidates signal_q16 len config)) peak_indices"
  using find_peak_candidates_result [OF assms(1,2), of signal_q16 config]
  unfolding candidates_spec [OF assms(3)] by blast
section \<open>The claims\<close>

text \<open>
  C1 (failing case). The claim holds in all but the final subtraction: the code's reference
  level is the greater of the two running minima (\<open>reference_level_refines_spec\<close>), and the
  value returned is the peak's height above it whenever that height is below \<open>2^31\<close>
  (\<open>prominence_matches_spec\<close>), as for the signal 0, 10, 5, 20, 5, 15, 0 at index 3
  (\<open>prominence_scenario_c\<close>). For the samples \<open>-20000, 20000, -20000\<close> the peak stands
  40000 units above its reference level, \<open>40000 << 16\<close>, and the 32-bit subtraction returns
  another value.
\<close>

theorem prominence_is_not_the_height_on_overflow:
  "sint (calculate_topological_prominence (map to_q16 [- 20000, 20000, - 20000]) 3 1) =
     - 1673527296 \<and>
   spec_prominence (map to_q16 [- 20000, 20000, - 20000]) 3 1 = 2621440000"
  by code_simp

text \<open>
  C2 (failing case). With a 32-bit \<open>long\<close> the rounding bias is added before the saturation
  check, so for \<open>q = INT32_MAX\<close> the sum wraps; the rounded value 32768 lies above the
  \<open>int16_t\<close> range, yet \<open>from_q16\<close> returns \<open>INT16_MIN\<close> instead of \<open>INT16_MAX\<close>.
\<close>

theorem from_q16_wraps_near_int32_max:
  "sint (from_q16 32 0x7FFFFFFF) = - 32768 \<and>
   (sint (0x7FFFFFFF :: int32) + 2 ^ 15) div 2 ^ 16 = (32768 :: int)"
  by (simp add: from_q16_def)

text \<open>
  C3 (as stated, refuted). On the samples \<open>0, 30, 10, 30\<close> with the default
  configuration detection succeeds with index 1. On the reversed samples the mirrored
  index 2 has a previous-index gradient of 0, below the gradient threshold, so there is no
  candidate and detection reports that no peak was found.
\<close>

theorem reversal_loses_the_peak:
  "fst (find_prominent_peak_fp
          \<lparr>s_signal_q16 = replicate 512 0, s_peak_candidates = replicate 32 0\<rparr>
          (Some [0, 30, 10, 30]) 4 (Some (Cell (- 1) 0)) None) = PEAK_FP_OK \<and>
   fst (snd (find_prominent_peak_fp
          \<lparr>s_signal_q16 = replicate 512 0, s_peak_candidates = replicate 32 0\<rparr>
          (Some [0, 30, 10, 30]) 4 (Some (Cell (- 1) 0)) None)) = Some (Cell 1 1) \<and>
   fst (find_prominent_peak_fp
          \<lparr>s_signal_q16 = replicate 512 0, s_peak_candidates = replicate 32 0\<rparr>
          (Some (rev [0, 30, 10, 30])) 4 (Some (Cell (- 1) 0)) None) = PEAK_FP_NO_PEAK_FOUND"
  by code_simp

text \<open>
  C3 (amended). Whenever \<open>find_prominent_peak_fp\<close> succeeds with best index \<open>i\<close>, that
  index is interior, and in the reversed signal the mirrored index \<open>len - 1 - i\<close> holds
  the same sample and has the same topological prominence, which reaches the configured
  threshold. If moreover the mirrored index is among the candidates detected on the reversed
  signal, the run on the reversed signal succeeds as well and selects a peak whose prominence
  is at least that of \<open>i\<close>.
\<close>

theorem selected_peak_mirrors_under_reversal:
  assumes "statics_ok st" "statics_ok st'" "len \<le> int (length signal)"
    and ok: "fst (find_prominent_peak_fp st (Some signal) len (Some out) user_config) = PEAK_FP_OK"
  shows "\<exists>i. fst (snd (find_prominent_peak_fp st (Some signal) len (Some out) user_config)) =
             Some (store i out) \<and>
           1 \<le> i \<and> i \<le> len - 2 \<and>
           rev (take (nat len) signal) ! nat (len - 1 - i) = signal ! nat i \<and>
           calculate_topological_prominence
               (converted (rev (take (nat len) signal)) len) len (len - 1 - i) =
             calculate_topological_prominence (converted signal len) len i \<and>
           prominence_threshold_q16
               (case user_config of Some c \<Rightarrow> c | None \<Rightarrow> default_config_fp) \<le>s
             calculate_topological_prominence (converted signal len) len i \<and>
           (len - 1 - i \<in> set (candidates (converted (rev (take (nat len) signal)) len) len
                (case user_config of Some c \<Rightarrow> c | None \<Rightarrow> default_config_fp) MAX_PEAKS) \<longrightarrow>
            (\<exists>j. fst (find_prominent_peak_fp st' (Some (rev (take (nat len) signal))) len
                        (Some out') user_config) = PEAK_FP_OK \<and>
                 fst (snd (find_prominent_peak_fp st' (Some (rev (take (nat len) signal))) len
                        (Some out') user_config)) = Some (store j out') \<and>
                 calculate_topological_prominence (converted signal len) len i \<le>s
                   calculate_topological_prominence
                     (converted (rev (take (nat len) signal)) len) len j))"
proof -
  define config where "config = (case user_config of Some c \<Rightarrow> c | None \<Rightarrow> default_config_fp)"
  define reversed where "reversed = rev (take (nat len) signal)"
  have range: "0 < len" "len \<le> MAX_SIGNAL_LENGTH"
  proof -
    have "\<not> (len \<le> 0 \<or> MAX_SIGNAL_LENGTH < len)"
    proof
      assume "len \<le> 0 \<or> MAX_SIGNAL_LENGTH < len"
      then have "Some signal = None \<or> Some out = None \<or> len \<le> 0 \<or> MAX_SIGNAL_LENGTH < len"
        by simp
      from find_prominent_peak_fp_invalid [OF this, of st user_config] ok show False
        by simp
    qed
    then show "0 < len" "len \<le> MAX_SIGNAL_LENGTH"
      by simp_all
  qed
  note d = find_prominent_peak_fp_detect [OF assms(1) range, of signal out user_config,
      folded config_def]
  note d' = find_prominent_peak_fp_detect [OF assms(2) range, of reversed out' user_config,
      folded config_def]
  from d ok have "fst (detect signal len config out) = PEAK_FP_OK"
    by simp
  from detect_success [OF this] obtain i where i:
    "snd (detect signal len config out) = store i out" "1 \<le> i" "i \<le> len - 2"
    "prominence_threshold_q16 config \<le>s
       calculate_topological_prominence (converted signal len) len i"
    "INT32_MIN <s calculate_topological_prominence (converted signal len) len i"
    by blast
  have n: "nat i < nat len" "nat (len - 1 - i) = nat len - Suc (nat i)"
    using i(2,3) by linarith+
  have lt: "nat len \<le> length signal"
    using assms(3) by linarith
  have "nat len - Suc (nat len - Suc (nat i)) = nat i"
    using n(1) by linarith
  moreover have "nat len - Suc (nat i) < length (take (nat len) signal)"
    using n(1) lt by simp
  ultimately have "rev (take (nat len) signal) ! (nat len - Suc (nat i)) =
      take (nat len) signal ! nat i"
    using lt by (simp add: rev_nth min_absorb2)
  then have v: "reversed ! nat (len - 1 - i) = signal ! nat i"
    using n by (simp add: reversed_def)
  have p: "calculate_topological_prominence (converted reversed len) len (len - 1 - i) =
             calculate_topological_prominence (converted signal len) len i"
    unfolding reversed_def converted_rev [OF assms(3)]
    using i(2,3) by (intro prominence_rev) simp_all
  from d i(1) have w: "fst (snd (find_prominent_peak_fp st (Some signal) len (Some out)
      user_config)) = Some (store i out)"
    by simp
  have r: "\<exists>j. fst (find_prominent_peak_fp st' (Some reversed) len (Some out') user_config) =
               PEAK_FP_OK \<and>
             fst (snd (find_prominent_peak_fp st' (Some reversed) len (Some out') user_config)) =
               Some (store j out') \<and>
             calculate_topological_prominence (converted signal len) len i \<le>s
               calculate_topological_prominence (converted reversed len) len j"
    if m: "len - 1 - i \<in> set (candidates (converted reversed len) len config MAX_PEAKS)"
  proof -
    from detect_dominates_candidate [OF m i(4,5) [folded p], of out'] obtain j where
      "detect reversed len config out' = (PEAK_FP_OK, store j out')"
      "calculate_topological_prominence (converted reversed len) len (len - 1 - i) \<le>s
         calculate_topological_prominence (converted reversed len) len j"
      by blast
    with d' show ?thesis
      unfolding p by auto
  qed
  from w i(2,3,4) v p r show ?thesis
    unfolding config_def reversed_def by blast
qed

text \<open>
  Witness for C3: the second test signal, whose selected index 7 is mirrored to index 2 of
  the reversed signal, a candidate there.
\<close>

theorem two_peak_signal_mirrors:
  "fst (snd (find_prominent_peak_fp
          \<lparr>s_signal_q16 = replicate 512 0, s_peak_candidates = replicate 32 0\<rparr>
          (Some [10, 40, 70, 80, 60, 40, 70, 100, 50, 20]) 10 (Some (Cell (- 1) 0)) None)) =
     Some (Cell 7 1) \<and>
   rev (take (nat 10) [10, 40, 70, 80, 60, 40, 70, 100, 50, 20 :: int16]) ! nat (10 - 1 - 7) =
     [10, 40, 70, 80, 60, 40, 70, 100, 50, 20] ! nat 7 \<and>
   calculate_topological_prominence
     (converted (rev (take (nat 10) [10, 40, 70, 80, 60, 40, 70, 100, 50, 20])) 10) 10
     (10 - 1 - 7) =
   calculate_topological_prominence
     (converted [10, 40, 70, 80, 60, 40, 70, 100, 50, 20] 10) 10 7 \<and>
   fst (find_prominent_peak_fp
          \<lparr>s_signal_q16 = replicate 512 0, s_peak_candidates = replicate 32 0\<rparr>
          (Some (rev (take (nat 10) [10, 40, 70, 80, 60, 40, 70, 100, 50, 20]))) 10
          (Some (Cell (- 1) 0)) None) = PEAK_FP_OK"
proof -
  define st where "st = \<lparr>s_signal_q16 = replicate 512 0, s_peak_candidates = replicate 32 0\<rparr>"
  define sig :: "int16 list" where "sig = [10, 40, 70, 80, 60, 40, 70, 100, 50, 20]"
  have h: "statics_ok st" "statics_ok st" "(10::int) \<le> int (length sig)"
    by (simp_all add: st_def sig_def statics_ok_def MAX_SIGNAL_LENGTH_def MAX_PEAKS_def)
  have ev: "fst (find_prominent_peak_fp st (Some sig) 10 (Some (Cell (- 1) 0)) None) = PEAK_FP_OK"
      "fst (snd (find_prominent_peak_fp st (Some sig) 10 (Some (Cell (- 1) 0)) None)) =
         Some (Cell 7 1)"
    unfolding st_def sig_def by code_simp+
  have m: "10 - 1 - 7 \<in> set (candidates (converted (rev (take (nat 10) sig)) 10) 10
             (case None of Some c \<Rightarrow> c | None \<Rightarrow> default_config_fp) MAX_PEAKS)"
    unfolding sig_def by code_simp
  from selected_peak_mirrors_under_reversal [OF h ev(1), of "Cell (- 1) 0"] obtain i where i:
    "Some (Cell 7 1) = Some (store i (Cell (- 1) 0))"
    "rev (take (nat 10) sig) ! nat (10 - 1 - i) = sig ! nat i"
    "calculate_topological_prominence (converted (rev (take (nat 10) sig)) 10) 10 (10 - 1 - i) =
       calculate_topological_prominence (converted sig 10) 10 i"
    "10 - 1 - i \<in> set (candidates (converted (rev (take (nat 10) sig)) 10) 10
        (case None of Some c \<Rightarrow> c | None \<Rightarrow> default_config_fp) MAX_PEAKS) \<longrightarrow>
     (\<exists>j. fst (find_prominent_peak_fp st (Some (rev (take (nat 10) sig))) 10
                 (Some (Cell (- 1) 0)) None) = PEAK_FP_OK \<and>
          fst (snd (find_prominent_peak_fp st (Some (rev (take (nat 10) sig))) 10
                 (Some (Cell (- 1) 0)) None)) = Some (store j (Cell (- 1) 0)) \<and>
          calculate_topological_prominence (converted sig 10) 10 i \<le>s
            calculate_topological_prominence (converted (rev (take (nat 10) sig)) 10) 10 j)"
    unfolding ev(2) by blast
  from i(1) have i7: "i = 7"
    by (simp add: store_def)
  from i(4) m have "fst (find_prominent_peak_fp st (Some (rev (take (nat 10) sig))) 10
                 (Some (Cell (- 1) 0)) None) = PEAK_FP_OK"
    unfolding i7 by blast
  with ev(2) i(2,3) show ?thesis
    unfolding i7 st_def sig_def by blast
qed

text \<open>
  C4 (failing cases). The gradients are 32-bit differences, and the magnitude of the previous
  gradient is \<open>-grad_prev\<close> when \<open>grad_prev\<close> is not positive. For the samples
  \<open>-16384, 16384, 0\<close> the first forward difference is \<open>2^31\<close> in Q16.16; it wraps to
  \<open>INT32_MIN\<close>, whose negation wraps again, and index 1, a local maximum above the noise
  floor behind a gradient of the largest magnitude, is not listed. For the samples
  \<open>-20000, 100, 20000, 0\<close> the central difference at index 1 wraps negative, which makes
  index 1 look like a zero crossing: it is listed although it is neither a zero crossing nor
  a local maximum. Where no sample lies \<open>2^30\<close> or more from zero (16384 units) the list is
  the specified one (\<open>find_peak_candidates_spec_in_range\<close>).
\<close>

theorem candidates_differ_when_differences_wrap:
  "find_peak_candidates (map to_q16 [- 16384, 16384, 0]) 3 default_config_fp
       (replicate 32 0) MAX_PEAKS = (PEAK_FP_OK, replicate 32 0, 0) \<and>
   spec_candidates (map to_q16 [- 16384, 16384, 0]) 3 default_config_fp = [1] \<and>
   find_peak_candidates (map to_q16 [- 20000, 100, 20000, 0]) 4 default_config_fp
       (replicate 32 0) MAX_PEAKS = (PEAK_FP_OK, [1, 2] @ replicate 30 0, 2) \<and>
   spec_candidates (map to_q16 [- 20000, 100, 20000, 0]) 4 default_config_fp = [2]"
  by code_simp




text \<open>
  C6. \<open>find_prominent_peak_fp\<close> returns \<open>PEAK_FP_INVALID_INPUT\<close> exactly when the
  signal or the output pointer is null or the length lies outside \<open>(0, MAX_SIGNAL_LENGTH]\<close>;
  with both pointers given and the length in range it returns
  \<open>PEAK_FP_BUFFER_TOO_SMALL\<close> exactly when the length is below 3. An invalid call leaves
  output and static buffers as they were; a too-short signal leaves the output and the
  candidate buffer as they were.
\<close>

theorem input_validation:
  "(fst (find_prominent_peak_fp st signal len peak_index user_config) = PEAK_FP_INVALID_INPUT
      \<longleftrightarrow> signal = None \<or> peak_index = None \<or> len \<le> 0 \<or> MAX_SIGNAL_LENGTH < len) \<and>
   (signal \<noteq> None \<and> peak_index \<noteq> None \<and> 0 < len \<and> len \<le> MAX_SIGNAL_LENGTH \<longrightarrow>
      (fst (find_prominent_peak_fp st signal len peak_index user_config) =
         PEAK_FP_BUFFER_TOO_SMALL \<longleftrightarrow> len < 3)) \<and>
   (fst (find_prominent_peak_fp st signal len peak_index user_config) = PEAK_FP_INVALID_INPUT
      \<longrightarrow> find_prominent_peak_fp st signal len peak_index user_config =
            (PEAK_FP_INVALID_INPUT, peak_index, st)) \<and>
   (fst (find_prominent_peak_fp st signal len peak_index user_config) = PEAK_FP_BUFFER_TOO_SMALL
      \<longrightarrow> fst (snd (find_prominent_peak_fp st signal len peak_index user_config)) = peak_index \<and>
          s_peak_candidates (snd (snd (find_prominent_peak_fp st signal len peak_index
            user_config))) = s_peak_candidates st)"
proof (cases "signal = None \<or> peak_index = None \<or> len \<le> 0 \<or> MAX_SIGNAL_LENGTH < len")
  case True
  then show ?thesis
    using find_prominent_peak_fp_invalid [OF True, of st user_config] by auto
next
  case False
  then obtain sig out where v: "signal = Some sig" "peak_index = Some out"
      "0 < len" "len \<le> MAX_SIGNAL_LENGTH"
    by auto
  show ?thesis
  proof (cases "len < 3")
    case True
    show ?thesis
      unfolding v(1,2) find_prominent_peak_fp_too_small [OF v(3,4) True]
      using v(3,4) True by simp
  next
    case ge: False
    then have "3 \<le> len"
      by simp
    from find_prominent_peak_fp_valid [OF v(3,4) this, of st sig out user_config]
    show ?thesis
      using v ge by auto
  qed
qed

text \<open>Witness for C6: the two-sample signal of the edge-case test.\<close>

theorem input_validation_short_signal:
  "fst (find_prominent_peak_fp
          \<lparr>s_signal_q16 = replicate 512 0, s_peak_candidates = replicate 32 0\<rparr>
          (Some [10, 20]) 2 (Some (Cell (- 1) 0)) None) = PEAK_FP_BUFFER_TOO_SMALL"
  using input_validation
    [of "\<lparr>s_signal_q16 = replicate 512 0, s_peak_candidates = replicate 32 0\<rparr>"
      "Some [10, 20]" 2 "Some (Cell (- 1) 0)" None]
  by (simp add: MAX_SIGNAL_LENGTH_def)

text \<open>
  C7. For a fixed signal and candidate list and thresholds \<open>t2 \<le> t1\<close>, every candidate
  whose prominence reaches \<open>t1\<close> also reaches \<open>t2\<close>, and a selection that succeeds at
  \<open>t1\<close> succeeds at \<open>t2\<close> with the same outputs: lowering the threshold never removes
  an accepted candidate.
\<close>

theorem lower_threshold_keeps_accepted:
  assumes "t2 \<le>s t1" "nat num_peaks \<le> length peak_indices"
  shows "(\<forall>c\<in>set (take (nat num_peaks) peak_indices).
            t1 \<le>s calculate_topological_prominence signal_q16 len c \<longrightarrow>
            t2 \<le>s calculate_topological_prominence signal_q16 len c) \<and>
         (\<forall>out' outp'.
            select_prominent_peak signal_q16 len peak_indices num_peaks
              (config\<lparr>prominence_threshold_q16 := t1\<rparr>) out outp = (PEAK_FP_OK, out', outp') \<longrightarrow>
            select_prominent_peak signal_q16 len peak_indices num_peaks
              (config\<lparr>prominence_threshold_q16 := t2\<rparr>) out outp = (PEAK_FP_OK, out', outp'))"
proof (intro conjI ballI impI allI)
  fix c assume "t1 \<le>s calculate_topological_prominence signal_q16 len c"
  with assms(1) show "t2 \<le>s calculate_topological_prominence signal_q16 len c"
    by (simp add: word_sle_eq)
next
  fix out' outp'
  assume "select_prominent_peak signal_q16 len peak_indices num_peaks
              (config\<lparr>prominence_threshold_q16 := t1\<rparr>) out outp = (PEAK_FP_OK, out', outp')"
  with assms show "select_prominent_peak signal_q16 len peak_indices num_peaks
              (config\<lparr>prominence_threshold_q16 := t2\<rparr>) out outp = (PEAK_FP_OK, out', outp')"
    by (rule select_prominent_peak_lower_threshold)
qed

text \<open>Witness for C7: thresholds 50 and 1 on the second test signal.\<close>

theorem lower_threshold_scenario_b:
  "select_prominent_peak (map to_q16 [10, 40, 70, 80, 60, 40, 70, 100, 50, 20]) 10 [3, 7] 2
     (default_config_fp\<lparr>prominence_threshold_q16 := push_bit 16 1\<rparr>) (Cell 0 0) None =
     (PEAK_FP_OK, Cell 7 1, None)"
proof -
  let ?sig = "map to_q16 [10, 40, 70, 80, 60, 40, 70, 100, 50, 20]"
  have h: "(push_bit 16 1 :: int32) \<le>s push_bit 16 50" "nat 2 \<le> length [3, 7 :: int]"
    by (simp_all add: word_sle_eq)
  have "select_prominent_peak ?sig 10 [3, 7] 2
          (default_config_fp\<lparr>prominence_threshold_q16 := push_bit 16 50\<rparr>) (Cell 0 0) None =
          (PEAK_FP_OK, Cell 7 1, None)"
    by code_simp
  with lower_threshold_keeps_accepted [OF h, of ?sig 10 default_config_fp "Cell 0 0" None]
  show ?thesis
    by blast
qed

text \<open>
  C8. Given scratch buffers that are present and large enough (\<open>len\<close> converted samples,
  \<open>MAX_PEAKS\<close> candidates), \<open>find_prominent_peak_fp_buffered\<close> returns the same result
  code as \<open>find_prominent_peak_fp\<close> and leaves the same content in the output location,
  whatever the static buffers and the caller's buffers held before.
\<close>

theorem buffered_agrees_with_static:
  assumes "statics_ok st" "len \<le> int (length qbuf)" "nat MAX_PEAKS \<le> length pbuf"
  shows "fst (find_prominent_peak_fp_buffered signal len peak_index user_config
                (Some qbuf) (Some pbuf)) =
           fst (find_prominent_peak_fp st signal len peak_index user_config) \<and>
         fst (snd (find_prominent_peak_fp_buffered signal len peak_index user_config
                (Some qbuf) (Some pbuf))) =
           fst (snd (find_prominent_peak_fp st signal len peak_index user_config))"
proof (cases "signal = None \<or> peak_index = None \<or> len \<le> 0 \<or> MAX_SIGNAL_LENGTH < len")
  case True
  then have "find_prominent_peak_fp_buffered signal len peak_index user_config
                (Some qbuf) (Some pbuf) =
             (PEAK_FP_INVALID_INPUT, peak_index, Some qbuf, Some pbuf)"
    by (auto simp: find_prominent_peak_fp_buffered_def split: option.splits)
  then show ?thesis
    using find_prominent_peak_fp_invalid [OF True, of st user_config] by simp
next
  case False
  then obtain sig out where v: "signal = Some sig" "peak_index = Some out"
      "0 < len" "len \<le> MAX_SIGNAL_LENGTH"
    by auto
  show ?thesis
    unfolding v(1,2)
    using find_prominent_peak_fp_detect [OF assms(1) v(3,4), of sig out user_config]
      find_prominent_peak_fp_buffered_detect [OF assms(2,3) v(3,4), of sig out user_config]
    by simp
qed

text \<open>Witness for C8: the third test signal through both entry points.\<close>

theorem buffered_agrees_on_scenario_c:
  "fst (find_prominent_peak_fp
          \<lparr>s_signal_q16 = replicate 512 0, s_peak_candidates = replicate 32 0\<rparr>
          (Some [0, 10, 5, 20, 5, 15, 0]) 7 (Some (Cell (- 1) 0)) None) = PEAK_FP_OK \<and>
   fst (snd (find_prominent_peak_fp
          \<lparr>s_signal_q16 = replicate 512 0, s_peak_candidates = replicate 32 0\<rparr>
          (Some [0, 10, 5, 20, 5, 15, 0]) 7 (Some (Cell (- 1) 0)) None)) = Some (Cell 3 1)"
proof -
  have b: "find_prominent_peak_fp_buffered (Some [0, 10, 5, 20, 5, 15, 0]) 7
             (Some (Cell (- 1) 0)) None (Some (replicate 7 0)) (Some (replicate 32 7)) =
           (PEAK_FP_OK, Some (Cell 3 1),
            Some (map to_q16 [0, 10, 5, 20, 5, 15, 0]), Some ([3, 5] @ replicate 30 7))"
    by code_simp
  have h: "statics_ok \<lparr>s_signal_q16 = replicate 512 0, s_peak_candidates = replicate 32 0\<rparr>"
      "(7::int) \<le> int (length (replicate 7 (0::int32)))"
      "nat MAX_PEAKS \<le> length (replicate 32 (7::int))"
    by (simp_all add: statics_ok_def MAX_SIGNAL_LENGTH_def MAX_PEAKS_def)
  from buffered_agrees_with_static [OF h, of "Some [0, 10, 5, 20, 5, 15, 0]"
      "Some (Cell (- 1) 0)" None]
  show ?thesis
    unfolding b by simp
qed

text \<open>
  C9 (failing case). The reference level never exceeds the peak value
  (\<open>reference_level_le_peak\<close>), but the subtraction is made in 32 bits. For the samples
  \<open>-20000, 20000, -20000\<close> the peak stands 40000 units above its reference level;
  \<open>40000 << 16\<close> exceeds \<open>INT32_MAX\<close>, the prominence returned is negative, and
  \<open>find_prominent_peak_fp\<close> with the default configuration finds no peak.
\<close>

theorem prominence_negative_on_overflow:
  "\<not> 0 \<le>s calculate_topological_prominence (map to_q16 [- 20000, 20000, - 20000]) 3 1 \<and>
   fst (find_prominent_peak_fp
          \<lparr>s_signal_q16 = replicate 512 0, s_peak_candidates = replicate 32 0\<rparr>
          (Some [- 20000, 20000, - 20000]) 3 (Some (Cell (- 1) 0)) None) = PEAK_FP_NO_PEAK_FOUND"
  by code_simp

text \<open>
  C10. When \<open>find_prominent_peak_fp\<close> returns anything but \<open>PEAK_FP_OK\<close> the output
  location is as it was before the call; when it returns \<open>PEAK_FP_OK\<close> the location has
  been stored to exactly once.
\<close>

theorem peak_index_written_only_on_success:
  "(fst (find_prominent_peak_fp st signal len peak_index user_config) \<noteq> PEAK_FP_OK \<longrightarrow>
      fst (snd (find_prominent_peak_fp st signal len peak_index user_config)) = peak_index) \<and>
   (fst (find_prominent_peak_fp st signal len peak_index user_config) = PEAK_FP_OK \<longrightarrow>
      (\<exists>out idx. peak_index = Some out \<and>
         fst (snd (find_prominent_peak_fp st signal len peak_index user_config)) =
           Some (Cell idx (Suc (stores out)))))"
proof (cases "signal = None \<or> peak_index = None \<or> len \<le> 0 \<or> MAX_SIGNAL_LENGTH < len")
  case True
  then show ?thesis
    using find_prominent_peak_fp_invalid [OF True, of st user_config] by auto
next
  case False
  then obtain sig out where v: "signal = Some sig" "peak_index = Some out"
      "0 < len" "len \<le> MAX_SIGNAL_LENGTH"
    by auto
  show ?thesis
  proof (cases "len < 3")
    case True
    show ?thesis
      unfolding v(1,2) find_prominent_peak_fp_too_small [OF v(3,4) True] by simp
  next
    case ge: False
    then have "3 \<le> len"
      by simp
    from find_prominent_peak_fp_valid [OF v(3,4) this, of st sig out user_config]
    show ?thesis
      unfolding v(1,2) by (auto simp: store_def)
  qed
qed

text \<open>Witness for C10: the flat signal, on which no peak is found.\<close>

theorem peak_index_untouched_on_flat_signal:
  "fst (snd (find_prominent_peak_fp
          \<lparr>s_signal_q16 = replicate 512 0, s_peak_candidates = replicate 32 0\<rparr>
          (Some [50, 50, 50, 50, 50]) 5 (Some (Cell (- 1) 0)) None)) = Some (Cell (- 1) 0)"
proof -
  have "fst (find_prominent_peak_fp
          \<lparr>s_signal_q16 = replicate 512 0, s_peak_candidates = replicate 32 0\<rparr>
          (Some [50, 50, 50, 50, 50]) 5 (Some (Cell (- 1) 0)) None) = PEAK_FP_NO_PEAK_FOUND"
    by code_simp
  then show ?thesis
    using peak_index_written_only_on_success
      [of "\<lparr>s_signal_q16 = replicate 512 0, s_peak_candidates = replicate 32 0\<rparr>"
        "Some [50, 50, 50, 50, 50]" 5 "Some (Cell (- 1) 0)" None]
    by simp
qed

end
